theory Spec2Isabelle
  imports Complex_Main "HOL-Library.Word"
begin

section \<open>The board: pins, peripherals and the globals of the sketch\<close>

text \<open>
  The sketch \<^verbatim>\<open>Radar_Code.C\<close> drives a motor through two direction lines, reads an
  HC-SR04 ultrasonic sensor, and talks to a host over the serial port. Its functions
  are embedded as functions on a record \<open>device\<close> holding the globals of the sketch,
  the level last written to every output pin, the serial receive buffer, and a trace
  of every action performed on the hardware, oldest first.
\<close>

type_synonym pin = nat

abbreviation (input) LOW :: bool where "LOW \<equiv> False"
abbreviation (input) HIGH :: bool where "HIGH \<equiv> True"

definition enablePin :: pin where "enablePin = 25"
definition directionPin1 :: pin where "directionPin1 = 26"
definition directionPin2 :: pin where "directionPin2 = 27"
definition buzzer :: pin where "buzzer = 14"
definition proximityTrig :: pin where "proximityTrig = 13"
definition proximityEcho :: pin where "proximityEcho = 32"

definition MAX_VALUE :: rat where "MAX_VALUE = 400"
definition MIN_VALUE :: rat where "MIN_VALUE = 2"

definition CR :: char where "CR = CHR 0x0D"
definition LF :: char where "LF = CHR 0x0A"
definition NUL :: char where "NUL = CHR 0x00"

datatype pin_mode = INPUT | OUTPUT

text \<open>The functions of the sketch; \<open>StartStop b\<close> is the call \<^verbatim>\<open>startStop(b)\<close>.\<close>

datatype call = ChangeDirection | StartStop bool | TriggerSensor | MeasureEchoDuration
  | CalculateDistanceCM

text \<open>
  One event per library call of the sketch, with its arguments. \<open>Call\<close> marks the entry
  into one of the sketch's own functions, so that calls can be counted and ordered.
\<close>

datatype event =
    Call call
  | DigitalWrite pin bool
  | AnalogWrite pin nat
  | PinMode pin pin_mode
  | PulseIn pin bool
  | Delay nat
  | DelayMicroseconds nat
  | WireBegin
  | SerialBegin nat
  | SerialPrintln string
  | SerialPrintf string
  | SerialPrintfDistance rat
  | LcdInit
  | LcdBacklight
  | LcdClear
  | LcdSetCursor nat nat
  | LcdPrint string
  | LcdPrintNumber rat

record device =
  levels :: "pin \<Rightarrow> bool"
  distance :: rat
  direction :: bool
  measureCounter :: "32 word"
  rx :: string
  trace :: "event list"

text \<open>
  After reset the output latches are clear, and the globals have their initialisers:
  \<^verbatim>\<open>distance = 0\<close>, \<^verbatim>\<open>direction = true\<close>, \<^verbatim>\<open>measureCounter = 0\<close>.
\<close>

definition power_on :: device where
  "power_on = \<lparr>levels = (\<lambda>p. LOW), distance = 0, direction = True, measureCounter = 0,
     rx = [], trace = []\<rparr>"

text \<open>Statements run in sequence; \<open>exec_points\<close> lists the state before each statement
  and the state after the last.\<close>

fun exec :: "('s \<Rightarrow> 's) list \<Rightarrow> 's \<Rightarrow> 's" where
  "exec [] s = s"
| "exec (f # fs) s = exec fs (f s)"

fun exec_points :: "('s \<Rightarrow> 's) list \<Rightarrow> 's \<Rightarrow> 's list" where
  "exec_points [] s = [s]"
| "exec_points (f # fs) s = s # exec_points fs (f s)"

definition emit :: "event \<Rightarrow> device \<Rightarrow> device" where
  "emit e s = s\<lparr>trace := trace s @ [e]\<rparr>"

definition digitalWrite :: "pin \<Rightarrow> bool \<Rightarrow> device \<Rightarrow> device" where
  "digitalWrite p v s = emit (DigitalWrite p v) (s\<lparr>levels := (levels s)(p := v)\<rparr>)"

section \<open>DriveActuator: \<^verbatim>\<open>changeDirection\<close> and \<^verbatim>\<open>startStop\<close>\<close>

definition changeDirection :: "device \<Rightarrow> device" where
  "changeDirection s0 =
     (let s = emit (Call ChangeDirection) s0 in
      if direction s then
        exec [digitalWrite directionPin1 LOW,
              digitalWrite directionPin2 HIGH,
              (\<lambda>s. s\<lparr>direction := False\<rparr>)] s
      else
        exec [digitalWrite directionPin1 HIGH,
              digitalWrite directionPin2 LOW,
              (\<lambda>s. s\<lparr>direction := True\<rparr>)] s)"

definition startStop :: "bool \<Rightarrow> device \<Rightarrow> device" where
  "startStop isTrue s0 =
     (let s = emit (Call (StartStop isTrue)) s0 in
      if isTrue then
        exec [digitalWrite directionPin1 LOW,
              digitalWrite directionPin2 LOW] s
      else if \<not> direction s then
        exec [digitalWrite directionPin1 LOW,
              digitalWrite directionPin2 HIGH] s
      else
        exec [digitalWrite directionPin1 HIGH,
              digitalWrite directionPin2 LOW] s)"

text \<open>The spec's names for the three operations of the actuator.\<close>

datatype actuator_op = Stop | Resume | Reverse

fun actuate :: "actuator_op \<Rightarrow> device \<Rightarrow> device" where
  "actuate Stop = startStop True"
| "actuate Resume = startStop False"
| "actuate Reverse = changeDirection"

text \<open>The pair of levels on the two direction lines, and the motor state it means
  to the driver: both low is stopped, one line high runs in that line's direction.\<close>

definition pattern :: "device \<Rightarrow> bool \<times> bool" where
  "pattern s = (levels s directionPin1, levels s directionPin2)"

datatype motor_state = Stopped | Running bool | Braking

definition motorState :: "device \<Rightarrow> motor_state" where
  "motorState s =
     (case pattern s of
        (False, False) \<Rightarrow> Stopped
      | (True, False) \<Rightarrow> Running True
      | (False, True) \<Rightarrow> Running False
      | (True, True) \<Rightarrow> Braking)"

section \<open>Floating-point arithmetic of the sketch\<close>

text \<open>
  \<^verbatim>\<open>float distance = duration * 0.034 / 2\<close> converts the \<^verbatim>\<open>long\<close> to \<^verbatim>\<open>double\<close>,
  multiplies and divides in \<^verbatim>\<open>double\<close>, and rounds the result to \<^verbatim>\<open>float\<close>. A
  floating-point value is the rational number it denotes; every operation computes the
  exact result and rounds it to the nearest value with \<open>p\<close> significant bits, ties to
  the even significand (\<open>p = 53\<close> for \<^verbatim>\<open>double\<close>, \<open>p = 24\<close> for \<^verbatim>\<open>float\<close>). A
  \<^verbatim>\<open>long\<close> has 32 bits on the ESP32, so every value of the expression is zero or lies
  between \<open>2 ^ -6\<close> and \<open>2 ^ 27\<close> in magnitude (lemma \<open>normal_range\<close> below): neither
  format overflows or leaves its normal range, and the exponent is not bounded here.
\<close>

fun bit_length :: "nat \<Rightarrow> nat" where
  "bit_length n = (if n = 0 then 0 else Suc (bit_length (n div 2)))"

declare bit_length.simps [simp del]

definition pow2 :: "int \<Rightarrow> rat" where
  "pow2 e = (if 0 \<le> e then 2 ^ nat e else 1 / 2 ^ nat (- e))"

text \<open>For \<open>0 < q\<close>, the exponent \<open>e\<close> with \<open>2 ^ e \<le> q < 2 ^ (e + 1)\<close>.\<close>

definition ilog2 :: "rat \<Rightarrow> int" where
  "ilog2 q = (if 1 \<le> q then int (bit_length (nat \<lfloor>q\<rfloor>)) - 1
              else - int (bit_length (nat (\<lceil>1 / q\<rceil> - 1))))"

definition round_half_even :: "rat \<Rightarrow> int" where
  "round_half_even q =
     (let n = \<lfloor>q\<rfloor>; r = q - of_int n in
      if r < 1 / 2 then n
      else if 1 / 2 < r then n + 1
      else if even n then n else n + 1)"

definition fp_round :: "nat \<Rightarrow> rat \<Rightarrow> rat" where
  "fp_round p q =
     (if q = 0 then 0
      else let ulp = pow2 (ilog2 \<bar>q\<bar> - int p + 1)
           in of_int (round_half_even (q / ulp)) * ulp)"

definition to_double :: "rat \<Rightarrow> rat" where
  "to_double = fp_round 53"

definition to_float :: "rat \<Rightarrow> rat" where
  "to_float = fp_round 24"

section \<open>RangeSensor: trigger, echo and \<^verbatim>\<open>calculateDistanceCM\<close>\<close>

definition triggerSensor :: "device \<Rightarrow> device" where
  "triggerSensor s0 =
     exec [digitalWrite proximityTrig LOW,
           emit (DelayMicroseconds 2),
           digitalWrite proximityTrig HIGH,
           emit (DelayMicroseconds 10),
           digitalWrite proximityTrig LOW] (emit (Call TriggerSensor) s0)"

text \<open>\<^verbatim>\<open>pulseIn\<close> measures the echo; its result \<open>echo\<close> is an input of the model. It is
  an \<^verbatim>\<open>unsigned long\<close> returned as \<^verbatim>\<open>long\<close>: the same 32 bits, read as signed.\<close>

definition measureEchoDuration :: "32 word \<Rightarrow> device \<Rightarrow> 32 word \<times> device" where
  "measureEchoDuration echo s0 =
     (echo, emit (PulseIn proximityEcho HIGH) (emit (Call MeasureEchoDuration) s0))"

text \<open>The value of \<^verbatim>\<open>duration * 0.034 / 2\<close> stored in a \<^verbatim>\<open>float\<close>.\<close>

definition raw_distance :: "32 word \<Rightarrow> rat" where
  "raw_distance duration =
     to_float (to_double (to_double (of_int (sint duration) * to_double (34 / 1000)) / 2))"

definition calculateDistanceCM :: "32 word \<Rightarrow> device \<Rightarrow> rat \<times> device" where
  "calculateDistanceCM echo s0 =
     (let s = triggerSensor (emit (Call CalculateDistanceCM) s0);
          (duration, s) = measureEchoDuration echo s;
          distance' = raw_distance duration
      in if distance' \<ge> MIN_VALUE \<and> distance' \<le> MAX_VALUE then (distance', s)
         else (0, s))"

section \<open>HandshakeGate: the wait loop of \<^verbatim>\<open>setup\<close>\<close>

text \<open>
  \<^verbatim>\<open>Serial.readStringUntil(t)\<close> takes the bytes before the first \<open>t\<close> out of the
  receive buffer and discards that \<open>t\<close>; when it times out with no \<open>t\<close> received it
  returns all the bytes it has read. The result is the string read and the bytes left.
\<close>

definition readStringUntil :: "char \<Rightarrow> string \<Rightarrow> string \<times> string" where
  "readStringUntil t buf = (takeWhile (\<lambda>c. c \<noteq> t) buf, drop 1 (dropWhile (\<lambda>c. c \<noteq> t) buf))"

text \<open>
  \<^verbatim>\<open>input == "RDY\r"\<close> compares an Arduino \<^verbatim>\<open>String\<close> with a C string literal:
  \<^verbatim>\<open>String::equals(const char *)\<close> answers for an empty \<^verbatim>\<open>String\<close> whether the
  literal is empty, and otherwise whether \<^verbatim>\<open>strcmp\<close> of the two buffers is 0. A
  \<^verbatim>\<open>String\<close> can hold NUL bytes (\<^verbatim>\<open>readStringUntil\<close> appends every byte it reads), and
  \<^verbatim>\<open>strcmp\<close> stops at the first NUL of either side, so only the bytes before it count.
\<close>

definition c_str :: "string \<Rightarrow> string" where
  "c_str bytes = takeWhile (\<lambda>c. c \<noteq> NUL) bytes"

definition String_equals :: "string \<Rightarrow> string \<Rightarrow> bool" where
  "String_equals s cstr = (if s = [] then c_str cstr = [] else c_str s = c_str cstr)"

definition setup_init :: "device \<Rightarrow> device" where
  "setup_init =
     exec [emit WireBegin,
           emit LcdInit,
           emit LcdBacklight,
           emit (SerialBegin 115200),
           emit (PinMode directionPin1 OUTPUT),
           emit (PinMode directionPin2 OUTPUT),
           emit (PinMode enablePin OUTPUT),
           emit (PinMode buzzer OUTPUT),
           emit (PinMode proximityTrig OUTPUT),
           emit (PinMode proximityEcho INPUT),
           emit (AnalogWrite enablePin 255),
           emit (LcdSetCursor 0 0),
           emit (LcdPrint ''Python beklenior'')]"

text \<open>
  One pass of the \<^verbatim>\<open>while (true)\<close> loop, given the bytes \<open>arrived\<close> that the host
  delivers in time for it: \<open>Inl\<close> is the state at \<^verbatim>\<open>break\<close>, \<open>Inr\<close> the state
  after \<^verbatim>\<open>delay(100)\<close>, from which the loop goes round again.
\<close>

definition handshake_pass :: "string \<Rightarrow> device \<Rightarrow> device + device" where
  "handshake_pass arrived s0 =
     (let s = emit (SerialPrintln ''ESP32: Waiting for RDY signal...'') s0;
          s = s\<lparr>rx := rx s @ arrived\<rparr>
      in if rx s \<noteq> [] then
           (let (input, rest) = readStringUntil LF (rx s);
                s = s\<lparr>rx := rest\<rparr>
            in if String_equals input (''RDY'' @ [CR]) then
                 Inl (startStop False (emit (SerialPrintln ''ESP32: Ready signal received.'') s))
               else Inr (emit (Delay 100) s))
         else Inr (emit (Delay 100) s))"

text \<open>The loop itself: it may run forever, and then the result is \<open>None\<close>.\<close>

partial_function (option) wait_for_RDY :: "(nat \<Rightarrow> string) \<Rightarrow> nat \<Rightarrow> device \<Rightarrow> device option"
  where
  "wait_for_RDY arrivals i s =
     (case handshake_pass (arrivals i) s of
        Inl s' \<Rightarrow> Some s'
      | Inr s' \<Rightarrow> wait_for_RDY arrivals (i + 1) s')"

text \<open>The function \<^verbatim>\<open>setup\<close> of the sketch.\<close>

definition setup_sketch :: "(nat \<Rightarrow> string) \<Rightarrow> device \<Rightarrow> device option" where
  "setup_sketch arrivals s = map_option (emit LcdClear) (wait_for_RDY arrivals 0 (setup_init s))"

section \<open>ScanController: \<^verbatim>\<open>loop\<close>\<close>

text \<open>The statement \<^verbatim>\<open>if (measureCounter > 89) { ... }\<close>; the counter is an \<^verbatim>\<open>int\<close>,
  compared as a signed 32-bit value.\<close>

definition reversal_block :: "(device \<Rightarrow> device) list" where
  "reversal_block =
     [(\<lambda>s. s\<lparr>measureCounter := 0\<rparr>),
      emit (SerialPrintf (''CDR'' @ [LF, CR])),
      changeDirection]"

definition reversal :: "device \<Rightarrow> device" where
  "reversal s = (if 89 <s measureCounter s then exec reversal_block s else s)"

definition loop_body :: "32 word \<Rightarrow> (device \<Rightarrow> device) list" where
  "loop_body echo =
     [emit (Delay 70),
      startStop True,
      emit (SerialPrintf (''FWR'' @ [LF, CR])),
      (\<lambda>s. let (d, s) = calculateDistanceCM echo s in s\<lparr>distance := d\<rparr>),
      emit (LcdSetCursor 0 0),
      emit (LcdPrint ''Distance:''),
      emit (LcdSetCursor 10 0),
      (\<lambda>s. emit (LcdPrintNumber (distance s)) s),
      emit (Delay 60),
      (\<lambda>s. emit (SerialPrintfDistance (distance s)) s),
      reversal,
      startStop False,
      (\<lambda>s. s\<lparr>measureCounter := measureCounter s + 1\<rparr>)]"

definition loop :: "32 word \<Rightarrow> device \<Rightarrow> device" where
  "loop echo = exec (loop_body echo)"

text \<open>The Arduino core calls \<^verbatim>\<open>setup\<close> once and then \<^verbatim>\<open>loop\<close> forever; \<open>cycles\<close> runs
  one pass of \<^verbatim>\<open>loop\<close> for each echo duration of a list.\<close>

definition cycles :: "32 word list \<Rightarrow> device \<Rightarrow> device" where
  "cycles echoes s = fold loop echoes s"

definition sketch :: "(nat \<Rightarrow> string) \<Rightarrow> 32 word list \<Rightarrow> device option" where
  "sketch arrivals echoes = map_option (cycles echoes) (setup_sketch arrivals power_on)"

text \<open>The events one pass of \<^verbatim>\<open>loop\<close> adds to the trace, and the calls among them.\<close>

definition cycle_events :: "32 word \<Rightarrow> device \<Rightarrow> event list" where
  "cycle_events echo s = drop (length (trace s)) (trace (loop echo s))"

fun calls_of :: "event list \<Rightarrow> call list" where
  "calls_of [] = []"
| "calls_of (Call c # es) = c # calls_of es"
| "calls_of (e # es) = calls_of es"

text \<open>Reversals in one pass: the calls of \<^verbatim>\<open>changeDirection\<close> among its events.\<close>

definition reversals_in :: "32 word \<Rightarrow> device \<Rightarrow> nat" where
  "reversals_in echo s = count_list (calls_of (cycle_events echo s)) ChangeDirection"

text \<open>The state after the first \<open>k\<close> statements of a pass of \<^verbatim>\<open>loop\<close>.\<close>

definition at_point :: "nat \<Rightarrow> 32 word \<Rightarrow> device \<Rightarrow> device" where
  "at_point k echo s = exec (take k (loop_body echo)) s"

text \<open>The calls \<^verbatim>\<open>startStop(false)\<close> made so far.\<close>

definition resume_calls :: "device \<Rightarrow> nat" where
  "resume_calls s = count_list (calls_of (trace s)) (StartStop False)"

text \<open>
  What the wait loop reads. With \<open>buf\<close> in the receive buffer before pass \<open>i\<close>,
  \<open>pass_input arrivals i buf k\<close> is the string \<^verbatim>\<open>readStringUntil\<close> yields in pass
  \<open>i + k\<close> if no earlier pass has left the loop (empty when nothing is available).
  \<open>deliveries chunks\<close> is a host that delivers one chunk per pass and then nothing.
\<close>

fun pass_input :: "(nat \<Rightarrow> string) \<Rightarrow> nat \<Rightarrow> string \<Rightarrow> nat \<Rightarrow> string" where
  "pass_input arrivals i buf 0 = fst (readStringUntil LF (buf @ arrivals i))"
| "pass_input arrivals i buf (Suc k) =
     pass_input arrivals (Suc i) (snd (readStringUntil LF (buf @ arrivals i))) k"

definition deliveries :: "string list \<Rightarrow> nat \<Rightarrow> string" where
  "deliveries chunks i = (if i < length chunks then chunks ! i else [])"

text \<open>Three hosts: one sends \<^verbatim>\<open>RDY\<close> with carriage return and line feed at once, the
  others send \<^verbatim>\<open>foo\<close> first and then \<^verbatim>\<open>RDY\<close>, ended by a line feed alone or by both.\<close>

definition host_RDY_CRLF :: "nat \<Rightarrow> string" where
  "host_RDY_CRLF = deliveries [''RDY'' @ [CR, LF]]"

definition host_foo_RDY_LF :: "nat \<Rightarrow> string" where
  "host_foo_RDY_LF = deliveries [''foo'' @ [LF], ''RDY'' @ [LF]]"

definition host_foo_RDY_CRLF :: "nat \<Rightarrow> string" where
  "host_foo_RDY_CRLF = deliveries [''foo'' @ [LF], ''RDY'' @ [CR, LF]]"

text \<open>A fourth host sends one line with a NUL byte and more after the carriage return.\<close>

definition host_RDY_CR_NUL :: "nat \<Rightarrow> string" where
  "host_RDY_CR_NUL = deliveries [''RDY'' @ [CR, NUL] @ ''x'' @ [LF]]"

section \<open>Properties\<close>

lemmas pin_defs = directionPin1_def directionPin2_def proximityTrig_def proximityEcho_def
  enablePin_def buzzer_def

subsection \<open>The counter as a signed 32-bit integer\<close>

text \<open>Up to 90 the signed and the unsigned reading of the counter agree, the test
  \<^verbatim>\<open>measureCounter > 89\<close> holds at 90 only, and the increment does not wrap.\<close>

lemma sint_small:
  fixes c :: "32 word"
  assumes "unat c \<le> 90"
  shows "sint c = int (unat c)"
proof -
  have u: "uint c = int (unat c)" by simp
  have le: "uint c \<le> 90" using assms unfolding u by linarith
  have ge: "0 \<le> uint c" by simp
  have "(- (2 ^ 31) :: int) \<le> 0" by simp
  also note ge
  finally have "- (2 ^ 31) \<le> uint c" .
  moreover have "uint c < 2 ^ 31" using le by simp
  ultimately have "signed_take_bit 31 (uint c) = uint c"
    by (rule signed_take_bit_int_eq_self)
  then show ?thesis by (simp add: sint_uint)
qed

lemma sless_counter:
  fixes c :: "32 word"
  assumes "unat c \<le> 90"
  shows "(89 <s c) = (unat c = 90)"
proof -
  have "sint c = int (unat c)" by (rule sint_small [OF assms])
  moreover have "sint (89 :: 32 word) = 89" by simp
  ultimately have "(89 <s c) = (89 < int (unat c))" by (simp only: word_sless_alt)
  with assms show ?thesis by linarith
qed

lemma unat_incr: "unat (c :: 32 word) \<le> 90 \<Longrightarrow> unat (c + 1) = unat c + 1"
  by (simp add: unat_word_ariths)

subsection \<open>What each function does to the state\<close>

lemma emit_fields [simp]:
  "levels (emit e s) = levels s" "distance (emit e s) = distance s"
  "direction (emit e s) = direction s" "measureCounter (emit e s) = measureCounter s"
  "rx (emit e s) = rx s" "trace (emit e s) = trace s @ [e]"
  by (simp_all add: emit_def)

lemma digitalWrite_fields [simp]:
  "levels (digitalWrite p v s) = (levels s)(p := v)" "distance (digitalWrite p v s) = distance s"
  "direction (digitalWrite p v s) = direction s"
  "measureCounter (digitalWrite p v s) = measureCounter s"
  "rx (digitalWrite p v s) = rx s" "trace (digitalWrite p v s) = trace s @ [DigitalWrite p v]"
  by (simp_all add: digitalWrite_def)

lemma changeDirection_fields:
  "levels (changeDirection s) =
     (levels s)(directionPin1 := \<not> direction s, directionPin2 := direction s)"
  "distance (changeDirection s) = distance s"
  "direction (changeDirection s) = (\<not> direction s)"
  "measureCounter (changeDirection s) = measureCounter s"
  "rx (changeDirection s) = rx s"
  "trace (changeDirection s) = trace s @ [Call ChangeDirection,
     DigitalWrite directionPin1 (\<not> direction s), DigitalWrite directionPin2 (direction s)]"
  by (simp_all add: changeDirection_def Let_def)

lemma startStop_fields:
  "levels (startStop b s) =
     (levels s)(directionPin1 := \<not> b \<and> direction s, directionPin2 := \<not> b \<and> \<not> direction s)"
  "distance (startStop b s) = distance s"
  "direction (startStop b s) = direction s"
  "measureCounter (startStop b s) = measureCounter s"
  "rx (startStop b s) = rx s"
  "trace (startStop b s) = trace s @ [Call (StartStop b),
     DigitalWrite directionPin1 (\<not> b \<and> direction s),
     DigitalWrite directionPin2 (\<not> b \<and> \<not> direction s)]"
  by (simp_all add: startStop_def Let_def)

lemma triggerSensor_fields:
  "levels (triggerSensor s) = (levels s)(proximityTrig := LOW)"
  "distance (triggerSensor s) = distance s"
  "direction (triggerSensor s) = direction s"
  "measureCounter (triggerSensor s) = measureCounter s"
  "rx (triggerSensor s) = rx s"
  "trace (triggerSensor s) = trace s @ [Call TriggerSensor, DigitalWrite proximityTrig LOW,
     DelayMicroseconds 2, DigitalWrite proximityTrig HIGH, DelayMicroseconds 10,
     DigitalWrite proximityTrig LOW]"
  by (simp_all add: triggerSensor_def)


lemma calculateDistanceCM_state:
  "levels (snd (calculateDistanceCM e s)) = (levels s)(proximityTrig := LOW)"
  "distance (snd (calculateDistanceCM e s)) = distance s"
  "direction (snd (calculateDistanceCM e s)) = direction s"
  "measureCounter (snd (calculateDistanceCM e s)) = measureCounter s"
  "rx (snd (calculateDistanceCM e s)) = rx s"
  "trace (snd (calculateDistanceCM e s)) = trace s @ [Call CalculateDistanceCM,
     Call TriggerSensor, DigitalWrite proximityTrig LOW,
     DelayMicroseconds 2, DigitalWrite proximityTrig HIGH, DelayMicroseconds 10,
     DigitalWrite proximityTrig LOW, Call MeasureEchoDuration, PulseIn proximityEcho HIGH]"
  by (simp_all add: calculateDistanceCM_def measureEchoDuration_def triggerSensor_fields Let_def)

lemma calculateDistanceCM_value:
  "fst (calculateDistanceCM e s) =
     (if MIN_VALUE \<le> raw_distance e \<and> raw_distance e \<le> MAX_VALUE then raw_distance e else 0)"
  by (simp add: calculateDistanceCM_def measureEchoDuration_def Let_def)

lemma reversal_fields:
  "levels (reversal s) = (if 89 <s measureCounter s
      then (levels s)(directionPin1 := \<not> direction s, directionPin2 := direction s)
      else levels s)"
  "distance (reversal s) = distance s"
  "direction (reversal s) = (if 89 <s measureCounter s then \<not> direction s else direction s)"
  "measureCounter (reversal s) = (if 89 <s measureCounter s then 0 else measureCounter s)"
  "rx (reversal s) = rx s"
  "trace (reversal s) = trace s @ (if 89 <s measureCounter s
      then [SerialPrintf (''CDR'' @ [LF, CR]), Call ChangeDirection,
            DigitalWrite directionPin1 (\<not> direction s), DigitalWrite directionPin2 (direction s)]
      else [])"
  by (simp_all add: reversal_def reversal_block_def changeDirection_fields)


lemmas loop_unfold = loop_def loop_body_def case_prod_unfold Let_def calculateDistanceCM_state
  reversal_fields startStop_fields

lemma measureCounter_loop:
  "measureCounter (loop e s) = (if 89 <s measureCounter s then 1 else measureCounter s + 1)"
  by (simp add: loop_unfold)

lemma direction_loop:
  "direction (loop e s) = (if 89 <s measureCounter s then \<not> direction s else direction s)"
  by (simp add: loop_unfold)

lemma rx_loop: "rx (loop e s) = rx s"
  by (simp add: loop_unfold)

lemma distance_loop: "distance (loop e s) = fst (calculateDistanceCM e s)"
  by (simp add: loop_unfold calculateDistanceCM_value)

lemma pattern_loop:
  "pattern (loop e s) = (direction (loop e s), \<not> direction (loop e s))"
  by (simp add: pattern_def loop_unfold pin_defs)

lemma trace_loop:
  "trace (loop e s) = trace s @
     [Delay 70, Call (StartStop True), DigitalWrite directionPin1 LOW,
      DigitalWrite directionPin2 LOW, SerialPrintf (''FWR'' @ [LF, CR]),
      Call CalculateDistanceCM, Call TriggerSensor, DigitalWrite proximityTrig LOW,
      DelayMicroseconds 2, DigitalWrite proximityTrig HIGH, DelayMicroseconds 10,
      DigitalWrite proximityTrig LOW, Call MeasureEchoDuration, PulseIn proximityEcho HIGH,
      LcdSetCursor 0 0, LcdPrint ''Distance:'', LcdSetCursor 10 0,
      LcdPrintNumber (fst (calculateDistanceCM e s)), Delay 60,
      SerialPrintfDistance (fst (calculateDistanceCM e s))] @
     (if 89 <s measureCounter s
      then [SerialPrintf (''CDR'' @ [LF, CR]), Call ChangeDirection,
            DigitalWrite directionPin1 (\<not> direction s), DigitalWrite directionPin2 (direction s)]
      else []) @
     [Call (StartStop False), DigitalWrite directionPin1 (direction (loop e s)),
      DigitalWrite directionPin2 (\<not> direction (loop e s))]"
  by (simp add: loop_unfold calculateDistanceCM_value)



subsection \<open>The wait loop\<close>

lemma readStringUntil_Nil [simp]: "readStringUntil t [] = ([], [])"
  by (simp add: readStringUntil_def)

lemma calls_of_append [simp]: "calls_of (xs @ ys) = calls_of xs @ calls_of ys"
  by (induction xs rule: calls_of.induct) simp_all

lemma String_equals_Nil: "String_equals [] (c # cs) = (c = NUL)"
  by (simp add: String_equals_def c_str_def)

lemma handshake_pass_Inl:
  "handshake_pass arrived s = Inl s' \<longleftrightarrow>
     String_equals (fst (readStringUntil LF (rx s @ arrived))) (''RDY'' @ [CR]) \<and>
     s' = startStop False (emit (SerialPrintln ''ESP32: Ready signal received.'')
            (emit (SerialPrintln ''ESP32: Waiting for RDY signal...'') s
               \<lparr>rx := snd (readStringUntil LF (rx s @ arrived))\<rparr>))"
  by (auto simp add: handshake_pass_def Let_def case_prod_unfold emit_def String_equals_Nil
      NUL_def)

lemma handshake_pass_Inr:
  "handshake_pass arrived s = Inr s' \<longleftrightarrow>
     \<not> String_equals (fst (readStringUntil LF (rx s @ arrived))) (''RDY'' @ [CR]) \<and>
     s' = emit (Delay 100) (emit (SerialPrintln ''ESP32: Waiting for RDY signal...'') s
               \<lparr>rx := snd (readStringUntil LF (rx s @ arrived))\<rparr>)"
  by (auto simp add: handshake_pass_def Let_def case_prod_unfold emit_def String_equals_Nil
      NUL_def)

lemma wait_for_RDY_Some_imp:
  assumes "wait_for_RDY arrivals i s = Some s'"
  shows "\<exists>k. String_equals (pass_input arrivals i (rx s) k) (''RDY'' @ [CR])"
proof (rule wait_for_RDY.raw_induct
    [where P = "\<lambda>a i s s'. \<exists>k. String_equals (pass_input a i (rx s) k) (''RDY'' @ [CR])", OF _ assms])
  fix wait :: "(nat \<Rightarrow> string) \<Rightarrow> nat \<Rightarrow> device \<Rightarrow> device option"
  fix a i s s'
  assume IH: "\<And>a i s s'. wait a i s = Some s' \<Longrightarrow> \<exists>k. String_equals (pass_input a i (rx s) k) (''RDY'' @ [CR])"
  assume eq: "(case handshake_pass (a i) s of Inl s' \<Rightarrow> Some s' | Inr s' \<Rightarrow> wait a (i + 1) s')
    = Some s'"
  show "\<exists>k. String_equals (pass_input a i (rx s) k) (''RDY'' @ [CR])"
  proof (cases "handshake_pass (a i) s")
    case (Inl b)
    then have "String_equals (pass_input a i (rx s) 0) (''RDY'' @ [CR])"
      by (simp add: handshake_pass_Inl)
    then show ?thesis by blast
  next
    case (Inr b)
    with eq have "wait a (i + 1) b = Some s'" by simp
    then obtain k where "String_equals (pass_input a (i + 1) (rx b) k) (''RDY'' @ [CR])"
      using IH by blast
    moreover have "rx b = snd (readStringUntil LF (rx s @ a i))"
      using Inr by (simp add: handshake_pass_Inr)
    ultimately have "String_equals (pass_input a i (rx s) (Suc k)) (''RDY'' @ [CR])" by simp
    then show ?thesis by blast
  qed
qed

lemma wait_for_RDY_imp_Some:
  "String_equals (pass_input arrivals i (rx s) k) (''RDY'' @ [CR]) \<Longrightarrow> \<exists>s'. wait_for_RDY arrivals i s = Some s'"
proof (induction k arbitrary: i s)
  case 0
  then obtain s' where "handshake_pass (arrivals i) s = Inl s'"
    by (simp add: handshake_pass_Inl)
  then show ?case by (subst wait_for_RDY.simps) simp
next
  case (Suc k)
  show ?case
  proof (cases "handshake_pass (arrivals i) s")
    case (Inl a)
    then show ?thesis by (subst wait_for_RDY.simps) simp
  next
    case (Inr b)
    then have "rx b = snd (readStringUntil LF (rx s @ arrivals i))"
      by (simp add: handshake_pass_Inr)
    with Suc.prems have "String_equals (pass_input arrivals (Suc i) (rx b) k) (''RDY'' @ [CR])" by simp
    from Suc.IH [OF this] obtain s' where "wait_for_RDY arrivals (Suc i) b = Some s'" by blast
    with Inr show ?thesis by (subst wait_for_RDY.simps) simp
  qed
qed


lemma wait_for_RDY_frame:
  assumes "wait_for_RDY arrivals i s = Some s'"
  shows "resume_calls s' = resume_calls s + 1 \<and> measureCounter s' = measureCounter s \<and>
    direction s' = direction s \<and> distance s' = distance s \<and>
    pattern s' = (direction s, \<not> direction s)"
proof (rule wait_for_RDY.raw_induct
    [where P = "\<lambda>a i s s'. resume_calls s' = resume_calls s + 1 \<and>
       measureCounter s' = measureCounter s \<and> direction s' = direction s \<and>
       distance s' = distance s \<and> pattern s' = (direction s, \<not> direction s)", OF _ assms])
  fix wait :: "(nat \<Rightarrow> string) \<Rightarrow> nat \<Rightarrow> device \<Rightarrow> device option"
  fix a i s s'
  assume IH: "\<And>a i s s'. wait a i s = Some s' \<Longrightarrow>
    resume_calls s' = resume_calls s + 1 \<and> measureCounter s' = measureCounter s \<and>
    direction s' = direction s \<and> distance s' = distance s \<and>
    pattern s' = (direction s, \<not> direction s)"
  assume eq: "(case handshake_pass (a i) s of Inl s' \<Rightarrow> Some s' | Inr s' \<Rightarrow> wait a (i + 1) s')
    = Some s'"
  show "resume_calls s' = resume_calls s + 1 \<and> measureCounter s' = measureCounter s \<and>
    direction s' = direction s \<and> distance s' = distance s \<and>
    pattern s' = (direction s, \<not> direction s)"
  proof (cases "handshake_pass (a i) s")
    case (Inl b)
    with eq have "b = s'" by simp
    with Inl show ?thesis
      by (simp add: handshake_pass_Inl resume_calls_def startStop_fields pattern_def pin_defs)
  next
    case (Inr b)
    with eq have "wait a (i + 1) b = Some s'" by simp
    from IH [OF this] Inr show ?thesis
      by (simp add: handshake_pass_Inr resume_calls_def)
  qed
qed

lemma setup_init_fields:
  "levels (setup_init s) = levels s" "distance (setup_init s) = distance s"
  "direction (setup_init s) = direction s" "measureCounter (setup_init s) = measureCounter s"
  "rx (setup_init s) = rx s" "resume_calls (setup_init s) = resume_calls s"
  by (simp_all add: setup_init_def resume_calls_def)

lemma resume_calls_LcdClear: "resume_calls (emit LcdClear s) = resume_calls s"
  by (simp add: resume_calls_def)

lemma setup_sketch_Some_iff:
  "(\<exists>s'. setup_sketch arrivals s = Some s') \<longleftrightarrow>
     (\<exists>k. String_equals (pass_input arrivals 0 (rx s) k) (''RDY'' @ [CR]))"
  using wait_for_RDY_Some_imp [of arrivals 0 "setup_init s"]
    wait_for_RDY_imp_Some [of arrivals 0 "setup_init s"]
  by (auto simp add: setup_sketch_def setup_init_fields)

lemma setup_sketch_frame:
  assumes "setup_sketch arrivals s = Some s'"
  shows "resume_calls s' = resume_calls s + 1" "measureCounter s' = measureCounter s"
    "direction s' = direction s" "distance s' = distance s"
    "pattern s' = (direction s, \<not> direction s)"
  using assms wait_for_RDY_frame [of arrivals 0 "setup_init s"]
  by (auto simp add: setup_sketch_def setup_init_fields resume_calls_LcdClear pattern_def)

subsection \<open>The counter over many passes\<close>

lemma cycles_snoc: "cycles (es @ [e]) s = loop e (cycles es s)"
  by (simp add: cycles_def)

lemma cycles_Cons: "cycles (e # es) s = cycles es (loop e s)"
  by (simp add: cycles_def)

lemma counter_cycles:
  assumes "1 \<le> unat (measureCounter s)" "unat (measureCounter s) \<le> 90"
  shows "unat (measureCounter (cycles es s)) = (unat (measureCounter s) - 1 + length es) mod 90 + 1"
proof (induction es rule: rev_induct)
  case Nil
  from assms show ?case by (simp add: cycles_def)
next
  case (snoc e es)
  let ?c = "measureCounter (cycles es s)"
  let ?m = "unat (measureCounter s) - 1 + length es"
  have le: "unat ?c \<le> 90" using snoc by simp
  show ?case
  proof (cases "unat ?c = 90")
    case True
    with snoc have "Suc (?m mod 90) = 90" by simp
    then have "Suc ?m mod 90 = 0" by (simp add: mod_Suc)
    with True le show ?thesis
      by (simp add: cycles_snoc measureCounter_loop sless_counter)
  next
    case False
    with snoc have "Suc (?m mod 90) \<noteq> 90" by simp
    then have "Suc ?m mod 90 = Suc (?m mod 90)" by (simp add: mod_Suc)
    with False le snoc show ?thesis
      by (simp add: cycles_snoc measureCounter_loop sless_counter unat_incr)
  qed
qed

lemma counter_cycles_0:
  assumes "measureCounter s = 0"
  shows "unat (measureCounter (cycles es s)) = (if es = [] then 0 else (length es - 1) mod 90 + 1)"
proof (cases es)
  case Nil
  with assms show ?thesis by (simp add: cycles_def)
next
  case (Cons e es')
  have "measureCounter (loop e s) = 1"
    using assms by (simp add: measureCounter_loop word_sless_alt)
  then have "unat (measureCounter (cycles es' (loop e s))) = (length es') mod 90 + 1"
    using counter_cycles [of "loop e s" es'] by simp
  with Cons show ?thesis by (simp add: cycles_Cons)
qed


subsection \<open>The events of a pass, and executions of the whole sketch\<close>

lemma cycle_events_eq:
  "cycle_events e s =
     [Delay 70, Call (StartStop True), DigitalWrite directionPin1 LOW,
      DigitalWrite directionPin2 LOW, SerialPrintf (''FWR'' @ [LF, CR]),
      Call CalculateDistanceCM, Call TriggerSensor, DigitalWrite proximityTrig LOW,
      DelayMicroseconds 2, DigitalWrite proximityTrig HIGH, DelayMicroseconds 10,
      DigitalWrite proximityTrig LOW, Call MeasureEchoDuration, PulseIn proximityEcho HIGH,
      LcdSetCursor 0 0, LcdPrint ''Distance:'', LcdSetCursor 10 0,
      LcdPrintNumber (fst (calculateDistanceCM e s)), Delay 60,
      SerialPrintfDistance (fst (calculateDistanceCM e s))] @
     (if 89 <s measureCounter s
      then [SerialPrintf (''CDR'' @ [LF, CR]), Call ChangeDirection,
            DigitalWrite directionPin1 (\<not> direction s), DigitalWrite directionPin2 (direction s)]
      else []) @
     [Call (StartStop False), DigitalWrite directionPin1 (direction (loop e s)),
      DigitalWrite directionPin2 (\<not> direction (loop e s))]"
  by (simp add: cycle_events_def trace_loop)

lemma calls_cycle_events:
  "calls_of (cycle_events e s) =
     [StartStop True, CalculateDistanceCM, TriggerSensor, MeasureEchoDuration] @
     (if 89 <s measureCounter s then [ChangeDirection] else []) @ [StartStop False]"
  by (simp add: cycle_events_eq)

lemma reversals_in_eq: "reversals_in e s = (if 89 <s measureCounter s then 1 else 0)"
  by (simp add: reversals_in_def calls_cycle_events)

lemma at_point_10:
  "measureCounter (at_point 10 e s) = measureCounter s"
  "direction (at_point 10 e s) = direction s"
  by (simp_all add: at_point_def loop_unfold)

lemma at_point_steps:
  "at_point 11 e s = reversal (at_point 10 e s)"
  "at_point 12 e s = startStop False (at_point 11 e s)"
  "loop e s = (at_point 12 e s)\<lparr>measureCounter := measureCounter (at_point 12 e s) + 1\<rparr>"
  by (simp_all add: at_point_def loop_def loop_body_def)

lemma counters_in_loop:
  "map measureCounter (exec_points (loop_body e) s) =
     replicate 11 (measureCounter s) @
     (if 89 <s measureCounter s then [0, 0, 1]
      else [measureCounter s, measureCounter s, measureCounter s + 1])"
  by (simp add: loop_unfold numeral_eq_Suc)

lemma counters_in_reversal_block:
  "map measureCounter (tl (exec_points reversal_block s)) = [0, 0, 0]"
  by (simp add: reversal_block_def changeDirection_fields)

lemma exec_in_points: "exec fs s \<in> set (exec_points fs s)"
  by (induction fs arbitrary: s) simp_all

lemma sketch_Some:
  "sketch arrivals es = Some s \<longleftrightarrow>
     (\<exists>s0. setup_sketch arrivals power_on = Some s0 \<and> s = cycles es s0)"
  by (auto simp add: sketch_def)

lemma sketch_counter:
  assumes "sketch arrivals es = Some s"
  shows "unat (measureCounter s) = (if es = [] then 0 else (length es - 1) mod 90 + 1)"
proof -
  from assms obtain s0 where s0: "setup_sketch arrivals power_on = Some s0" "s = cycles es s0"
    by (auto simp add: sketch_Some)
  have "measureCounter s0 = 0"
    using setup_sketch_frame(2) [OF s0(1)] by (simp add: power_on_def)
  then show ?thesis using s0(2) by (simp add: counter_cycles_0)
qed

lemma sketch_fires:
  assumes "sketch arrivals es = Some s"
  shows "(89 <s measureCounter s) = (0 < length es \<and> length es mod 90 = 0)"
proof -
  have c: "unat (measureCounter s) = (if es = [] then 0 else (length es - 1) mod 90 + 1)"
    by (rule sketch_counter [OF assms])
  then have "unat (measureCounter s) \<le> 90"
    by (simp split: if_splits) 
  then have "(89 <s measureCounter s) = (unat (measureCounter s) = 90)"
    by (rule sless_counter)
  also have "\<dots> = (0 < length es \<and> length es mod 90 = 0)"
    unfolding c by (cases es) (simp, simp add: mod_Suc)
  finally show ?thesis .
qed

subsection \<open>DriveActuator\<close>

lemma pattern_actuate:
  "pattern (actuate Stop s) = (LOW, LOW)"
  "pattern (actuate Resume s) = (direction s, \<not> direction s)"
  "pattern (actuate Reverse s) = (\<not> direction s, direction s)"
  by (simp_all add: pattern_def startStop_fields changeDirection_fields pin_defs)

lemma pattern_actuate_not_both: "pattern (actuate op s) \<noteq> (HIGH, HIGH)"
  by (cases op) (simp_all add: pattern_actuate del: actuate.simps)

lemma pattern_fold_actuate:
  "ops \<noteq> [] \<Longrightarrow> pattern (fold actuate ops s) \<noteq> (HIGH, HIGH)"
  by (induction ops rule: rev_induct) (simp_all add: pattern_actuate_not_both del: actuate.simps)

lemma pattern_power_on: "pattern power_on = (LOW, LOW)"
  by (simp add: pattern_def power_on_def)

text \<open>
  Claim C7. In every state reached from power-on by any sequence of the operations
  stop, resume and reverse, and in every state reached from any state at all by at
  least one of them, the two direction lines are not both high; stop leaves both low,
  and resume leaves exactly one high, the first when the direction is forward and the
  second when it is reverse.
\<close>

theorem direction_lines_never_both_high:
  "pattern (fold actuate ops power_on) \<noteq> (HIGH, HIGH)
   \<and> (ops \<noteq> [] \<longrightarrow> pattern (fold actuate ops s) \<noteq> (HIGH, HIGH))
   \<and> pattern (actuate Stop s) = (LOW, LOW)
   \<and> pattern (actuate Resume s) = (direction s, \<not> direction s)"
proof -
  have "pattern (fold actuate ops power_on) \<noteq> (HIGH, HIGH)"
  proof (cases "ops = []")
    case True
    then show ?thesis by (simp add: pattern_power_on)
  next
    case False
    then show ?thesis by (rule pattern_fold_actuate)
  qed
  then show ?thesis
    using pattern_fold_actuate [of ops s] by (simp add: pattern_actuate del: actuate.simps)
qed

text \<open>Five operations from a state with both lines high end with the forward pattern.\<close>

theorem direction_lines_never_both_high_witness:
  "[Reverse, Resume, Reverse, Stop, Resume] \<noteq> []
   \<and> pattern (fold actuate [Reverse, Resume, Reverse, Stop, Resume]
        (power_on\<lparr>levels := (\<lambda>p. HIGH)\<rparr>)) = (HIGH, LOW)
   \<and> pattern (fold actuate [Reverse, Resume, Reverse, Stop, Resume]
        (power_on\<lparr>levels := (\<lambda>p. HIGH)\<rparr>)) \<noteq> (HIGH, HIGH)"
  using direction_lines_never_both_high
    [of "[Reverse, Resume, Reverse, Stop, Resume]" "power_on\<lparr>levels := (\<lambda>p. HIGH)\<rparr>"]
  by (simp add: pattern_def startStop_fields changeDirection_fields pin_defs power_on_def)

text \<open>
  Claim C9. \<^verbatim>\<open>startStop(true)\<close> leaves the motor stopped whatever the state before, and a
  second call changes neither the motor state, nor the level of any pin, nor the
  direction.
\<close>

theorem stop_idempotent:
  "motorState (startStop True s) = Stopped
   \<and> motorState (startStop True (startStop True s)) = motorState (startStop True s)
   \<and> levels (startStop True (startStop True s)) = levels (startStop True s)
   \<and> direction (startStop True (startStop True s)) = direction (startStop True s)
   \<and> direction (startStop True s) = direction s"
  by (simp add: motorState_def pattern_def startStop_fields pin_defs)

text \<open>
  Claim C8. For both directions, resume after a reversal drives the two lines with the
  pattern of resume before it swapped, which differs from it; two reversals restore the
  direction, and the pattern they leave, also after a resume, is the one resume drove
  originally.
\<close>

theorem reverse_then_resume_opposite:
  "pattern (startStop False (changeDirection s)) = prod.swap (pattern (startStop False s))
   \<and> pattern (startStop False (changeDirection s)) \<noteq> pattern (startStop False s)
   \<and> direction (changeDirection (changeDirection s)) = direction s
   \<and> pattern (changeDirection (changeDirection s)) = pattern (startStop False s)
   \<and> pattern (startStop False (changeDirection (changeDirection s)))
       = pattern (startStop False s)"
  by (simp add: pattern_def startStop_fields changeDirection_fields pin_defs)

text \<open>
  Claim C5 fails as stated: called on the stopped motor after power-on,
  \<^verbatim>\<open>changeDirection\<close> writes both direction lines itself and leaves the motor running in
  reverse.
\<close>

theorem changeDirection_untouched_counterexample:
  "motorState (startStop True power_on) = Stopped
   \<and> motorState (changeDirection (startStop True power_on)) = Running False
   \<and> drop (length (trace (startStop True power_on)))
        (trace (changeDirection (startStop True power_on)))
       = [Call ChangeDirection, DigitalWrite directionPin1 LOW, DigitalWrite directionPin2 HIGH]"
  by (simp add: motorState_def pattern_def startStop_fields changeDirection_fields pin_defs
      power_on_def)

text \<open>
  Claim C5, amended. \<^verbatim>\<open>changeDirection\<close> flips the direction and itself writes the new
  direction's pattern to the two direction lines, so the motor runs in the new direction
  whatever its state before, and the next resume writes the same pattern again; no other
  pin, and neither the counter nor the distance, is touched.
\<close>

theorem changeDirection_flips_and_drives:
  "direction (changeDirection s) = (\<not> direction s)
   \<and> trace (changeDirection s) = trace s @ [Call ChangeDirection,
        DigitalWrite directionPin1 (\<not> direction s), DigitalWrite directionPin2 (direction s)]
   \<and> levels (changeDirection s)
       = (levels s)(directionPin1 := \<not> direction s, directionPin2 := direction s)
   \<and> motorState (changeDirection s) = Running (\<not> direction s)
   \<and> pattern (startStop False (changeDirection s)) = pattern (changeDirection s)
   \<and> measureCounter (changeDirection s) = measureCounter s
   \<and> distance (changeDirection s) = distance s"
  by (cases "direction s")
    (simp_all add: motorState_def pattern_def startStop_fields changeDirection_fields pin_defs)


subsection \<open>ScanController\<close>

lemma setup_RDY_CRLF: "\<exists>s. setup_sketch host_RDY_CRLF power_on = Some s"
proof -
  have "String_equals (pass_input host_RDY_CRLF 0 (rx power_on) 0) (''RDY'' @ [CR])"
    by (simp add: host_RDY_CRLF_def deliveries_def readStringUntil_def power_on_def
        String_equals_def c_str_def CR_def LF_def NUL_def)
  then show ?thesis using setup_sketch_Some_iff by blast
qed

lemma sketch_RDY_CRLF_runs: "sketch host_RDY_CRLF es \<noteq> None"
  using setup_RDY_CRLF by (auto simp add: sketch_def)

lemma sketch_RDY_CRLF: "sketch host_RDY_CRLF es = Some (the (sketch host_RDY_CRLF es))"
  using sketch_RDY_CRLF_runs [of es] by simp

lemma sketch_counter_le:
  assumes "sketch arrivals es = Some s"
  shows "unat (measureCounter s) \<le> 90"
  using sketch_counter [OF assms] by (simp split: if_splits)

lemma counter_eq_90:
  fixes c :: "32 word"
  assumes "unat c = 90"
  shows "c = 90"
proof -
  have "c = of_nat (unat c)" by simp
  also have "\<dots> = 90" unfolding assms by simp
  finally show ?thesis .
qed

lemma fires_after_reversal:
  assumes "89 <s measureCounter s"
  shows "(89 <s measureCounter (cycles es (loop e s))) = (length es mod 90 = 89)"
proof -
  have one: "measureCounter (loop e s) = 1"
    using assms by (simp add: measureCounter_loop)
  have c: "unat (measureCounter (cycles es (loop e s))) = length es mod 90 + 1"
    using counter_cycles [of "loop e s" es] by (simp add: one)
  then have "unat (measureCounter (cycles es (loop e s))) \<le> 90" by simp
  then have "(89 <s measureCounter (cycles es (loop e s)))
      = (unat (measureCounter (cycles es (loop e s))) = 90)"
    by (rule sless_counter)
  then show ?thesis unfolding c by simp
qed

text \<open>
  Claim C3, amended. In an execution that has left the handshake and completed
  \<open>length es\<close> passes of the loop, the next pass calls \<^verbatim>\<open>changeDirection\<close> exactly once
  if the number of completed passes is a positive multiple of 90, and not at all
  otherwise: passes 1 to 90 trigger no reversal and pass 91 triggers one. In such a pass
  the counter is 90 at the test and 0 after the \<^verbatim>\<open>if\<close> statement. After a pass with a
  reversal, the next 89 passes trigger none and the 90th triggers exactly one.
\<close>

theorem reversal_schedule:
  "sketch arrivals es = Some s \<Longrightarrow>
     reversals_in e s = (if 0 < length es \<and> length es mod 90 = 0 then 1 else 0)
     \<and> (0 < length es \<and> length es mod 90 = 0 \<longrightarrow>
          measureCounter (at_point 10 e s) = 90 \<and> measureCounter (at_point 11 e s) = 0)
     \<and> (reversals_in e s = 1 \<longrightarrow>
          reversals_in e' (cycles es' (loop e s)) = (if length es' mod 90 = 89 then 1 else 0))"
proof -
  assume a: "sketch arrivals es = Some s"
  have f: "(89 <s measureCounter s) = (0 < length es \<and> length es mod 90 = 0)"
    by (rule sketch_fires [OF a])
  have 1: "reversals_in e s = (if 0 < length es \<and> length es mod 90 = 0 then 1 else 0)"
    by (simp add: reversals_in_eq f)
  have 2: "measureCounter (at_point 10 e s) = 90 \<and> measureCounter (at_point 11 e s) = 0"
    if "0 < length es \<and> length es mod 90 = 0"
  proof -
    from that f have fires: "89 <s measureCounter s" by simp
    then have "unat (measureCounter s) = 90"
      using sless_counter [OF sketch_counter_le [OF a]] by simp
    then have "measureCounter s = 90" by (rule counter_eq_90)
    then show ?thesis
      using fires by (simp add: at_point_steps reversal_fields at_point_10)
  qed
  have 3: "reversals_in e' (cycles es' (loop e s)) = (if length es' mod 90 = 89 then 1 else 0)"
    if "reversals_in e s = 1"
  proof -
    from that have "89 <s measureCounter s"
      by (simp add: reversals_in_eq split: if_splits)
    then show ?thesis
      by (simp add: reversals_in_eq fires_after_reversal)
  qed
  from 1 2 3 show ?thesis by blast
qed

text \<open>Pass 91 reverses, and so does the 90th pass after it.\<close>

theorem reversal_schedule_witness:
  "sketch host_RDY_CRLF (replicate 90 0) = Some (the (sketch host_RDY_CRLF (replicate 90 0)))
   \<and> reversals_in 0 (the (sketch host_RDY_CRLF (replicate 90 0))) = 1
   \<and> measureCounter (at_point 11 0 (the (sketch host_RDY_CRLF (replicate 90 0)))) = 0
   \<and> reversals_in 0 (cycles (replicate 89 0)
        (loop 0 (the (sketch host_RDY_CRLF (replicate 90 0))))) = 1"
  using reversal_schedule [OF sketch_RDY_CRLF [of "replicate 90 0"],
      where e = 0 and e' = 0 and es' = "replicate 89 0"]
  by (simp add: sketch_RDY_CRLF [symmetric])

text \<open>
  Claim C3 fails as stated: pass 91 triggers a reversal, and pass 181, the 90th pass
  after that reversal, triggers the next one, where the claim has passes 1 to 90 after a
  reversal trigger none.
\<close>

theorem reversal_after_90_more_counterexample:
  "sketch host_RDY_CRLF (replicate 90 0) \<noteq> None
   \<and> reversals_in 0 (the (sketch host_RDY_CRLF (replicate 90 0))) = 1
   \<and> sketch host_RDY_CRLF (replicate 180 0) \<noteq> None
   \<and> reversals_in 0 (the (sketch host_RDY_CRLF (replicate 180 0))) = 1"
proof -
  have a: "sketch host_RDY_CRLF (replicate 90 0) = Some (the (sketch host_RDY_CRLF (replicate 90 0)))"
    by (rule sketch_RDY_CRLF)
  have b: "sketch host_RDY_CRLF (replicate 180 0) = Some (the (sketch host_RDY_CRLF (replicate 180 0)))"
    by (rule sketch_RDY_CRLF)
  have "reversals_in 0 (the (sketch host_RDY_CRLF (replicate 90 0))) = 1"
    using sketch_fires [OF a] by (simp add: reversals_in_eq)
  moreover have "reversals_in 0 (the (sketch host_RDY_CRLF (replicate 180 0))) = 1"
    using sketch_fires [OF b] by (simp add: reversals_in_eq)
  ultimately show ?thesis by (simp only: sketch_RDY_CRLF_runs not_False_eq_True simp_thms)
qed


text \<open>
  Claim C4, amended. Every pass of the loop performs its steps in this order: pace,
  stop, announce, measure, display, settle, report, then the reversal test (with the
  \<^verbatim>\<open>CDR\<close> marker and \<^verbatim>\<open>changeDirection\<close> when it fires), then resume, then the
  increment of the counter. So when a reversal fires, \<^verbatim>\<open>changeDirection\<close> comes before
  the resume of the same pass, and that resume already drives the new direction's
  pattern, which is the pattern at the end of the pass.
\<close>

theorem cycle_order:
  "cycle_events e s =
     [Delay 70, Call (StartStop True), DigitalWrite directionPin1 LOW,
      DigitalWrite directionPin2 LOW, SerialPrintf (''FWR'' @ [LF, CR]),
      Call CalculateDistanceCM, Call TriggerSensor, DigitalWrite proximityTrig LOW,
      DelayMicroseconds 2, DigitalWrite proximityTrig HIGH, DelayMicroseconds 10,
      DigitalWrite proximityTrig LOW, Call MeasureEchoDuration, PulseIn proximityEcho HIGH,
      LcdSetCursor 0 0, LcdPrint ''Distance:'', LcdSetCursor 10 0,
      LcdPrintNumber (distance (loop e s)), Delay 60,
      SerialPrintfDistance (distance (loop e s))] @
     (if 89 <s measureCounter s
      then [SerialPrintf (''CDR'' @ [LF, CR]), Call ChangeDirection,
            DigitalWrite directionPin1 (\<not> direction s), DigitalWrite directionPin2 (direction s)]
      else []) @
     [Call (StartStop False), DigitalWrite directionPin1 (direction (loop e s)),
      DigitalWrite directionPin2 (\<not> direction (loop e s))]
   \<and> trace (loop e s) = trace s @ cycle_events e s
   \<and> direction (loop e s) = (if 89 <s measureCounter s then \<not> direction s else direction s)
   \<and> at_point 11 e s = reversal (at_point 10 e s)
   \<and> at_point 12 e s = startStop False (at_point 11 e s)
   \<and> loop e s = (at_point 12 e s)\<lparr>measureCounter := measureCounter (at_point 12 e s) + 1\<rparr>
   \<and> pattern (at_point 12 e s) = (direction (loop e s), \<not> direction (loop e s))
   \<and> pattern (loop e s) = (direction (loop e s), \<not> direction (loop e s))"
proof -
  have "trace (loop e s) = trace s @ cycle_events e s"
    by (simp add: cycle_events_eq trace_loop)
  moreover have "pattern (at_point 12 e s) = (direction (loop e s), \<not> direction (loop e s))"
    by (simp add: pattern_def at_point_def loop_unfold pin_defs)
  ultimately show ?thesis
    by (simp only: cycle_events_eq distance_loop direction_loop at_point_steps [symmetric] pattern_loop
      simp_thms)
qed

lemma sketch_snoc:
  "sketch arrivals (es @ [e]) = Some s \<longleftrightarrow> (\<exists>s'. sketch arrivals es = Some s' \<and> s = loop e s')"
  by (auto simp add: sketch_def cycles_snoc)

lemma sketch_pattern:
  "sketch arrivals es = Some s \<Longrightarrow> pattern s = (direction s, \<not> direction s)"
proof (cases es rule: rev_cases)
  case Nil
  assume "sketch arrivals es = Some s"
  with Nil have "setup_sketch arrivals power_on = Some s"
    by (simp add: sketch_Some cycles_def)
  from setup_sketch_frame(3,5) [OF this] show ?thesis by simp
next
  case (snoc ys y)
  assume "sketch arrivals es = Some s"
  with snoc obtain s' where "s = loop y s'" by (auto simp add: sketch_snoc)
  then show ?thesis by (simp add: pattern_loop)
qed

lemma sketch_direction:
  "sketch arrivals es = Some s \<Longrightarrow> direction s = even ((length es - 1) div 90)"
proof (induction es arbitrary: s rule: rev_induct)
  case Nil
  then obtain s0 where "setup_sketch arrivals power_on = Some s0" "s = s0"
    by (auto simp add: sketch_Some cycles_def)
  then show ?case using setup_sketch_frame(3) [of arrivals power_on s0]
    by (simp add: power_on_def)
next
  case (snoc e es)
  then obtain s' where s': "sketch arrivals es = Some s'" "s = loop e s'"
    by (auto simp add: sketch_snoc)
  have d: "direction s' = even ((length es - 1) div 90)" by (rule snoc.IH [OF s'(1)])
  have f: "(89 <s measureCounter s') = (0 < length es \<and> length es mod 90 = 0)"
    by (rule sketch_fires [OF s'(1)])
  show ?case
  proof (cases es)
    case Nil
    with d f s'(2) show ?thesis by (simp add: direction_loop)
  next
    case (Cons x xs)
    with d f s'(2) show ?thesis by (simp add: direction_loop div_Suc)
  qed
qed

text \<open>
  Claim C4 fails as stated: in pass 91 of an execution the call of \<^verbatim>\<open>changeDirection\<close>
  comes before the call \<^verbatim>\<open>startStop(false)\<close>, and the pass that began with the forward
  pattern ends with the reverse pattern on the lines.
\<close>

theorem resume_before_reverse_counterexample:
  "sketch host_RDY_CRLF (replicate 90 0) \<noteq> None
   \<and> calls_of (cycle_events 0 (the (sketch host_RDY_CRLF (replicate 90 0))))
       = [StartStop True, CalculateDistanceCM, TriggerSensor, MeasureEchoDuration,
          ChangeDirection, StartStop False]
   \<and> pattern (the (sketch host_RDY_CRLF (replicate 90 0))) = (HIGH, LOW)
   \<and> pattern (loop 0 (the (sketch host_RDY_CRLF (replicate 90 0)))) = (LOW, HIGH)"
proof -
  let ?s = "the (sketch host_RDY_CRLF (replicate 90 0))"
  have a: "sketch host_RDY_CRLF (replicate 90 0) = Some ?s"
    by (rule sketch_RDY_CRLF)
  have f: "89 <s measureCounter ?s"
    using sketch_fires [OF a] by simp
  have d: "direction ?s"
    using sketch_direction [OF a] by simp
  have "pattern ?s = (HIGH, LOW)"
    using sketch_pattern [OF a] d by simp
  moreover have "pattern (loop 0 ?s) = (LOW, HIGH)"
    using f d by (simp add: pattern_loop direction_loop)
  moreover have "calls_of (cycle_events 0 ?s)
       = [StartStop True, CalculateDistanceCM, TriggerSensor, MeasureEchoDuration,
          ChangeDirection, StartStop False]"
    using f by (simp add: calls_cycle_events)
  ultimately show ?thesis
    by (simp only: sketch_RDY_CRLF_runs not_False_eq_True simp_thms)
qed


text \<open>
  Claim C6. In an execution that has left the handshake and completed any number of
  passes, the counter is between 0 and 90 before and after every statement of the next
  pass; inside the block of the reversal test it is 0 from the first statement on, and
  when the test fires it is 0 after the \<^verbatim>\<open>if\<close> statement.
\<close>

theorem counter_bounds:
  "sketch arrivals es = Some s \<Longrightarrow>
     (\<forall>p \<in> set (exec_points (loop_body e) s).
        0 \<le> sint (measureCounter p) \<and> sint (measureCounter p) \<le> 90)
     \<and> (\<forall>p \<in> set (tl (exec_points reversal_block (at_point 10 e s))). measureCounter p = 0)
     \<and> (89 <s measureCounter s \<longrightarrow> measureCounter (at_point 11 e s) = 0)"
proof -
  assume a: "sketch arrivals es = Some s"
  have le: "unat (measureCounter s) \<le> 90" by (rule sketch_counter_le [OF a])
  have f: "(89 <s measureCounter s) = (unat (measureCounter s) = 90)"
    by (rule sless_counter [OF le])
  have small: "unat c \<le> 90 \<Longrightarrow> 0 \<le> sint c \<and> sint c \<le> 90" for c :: "32 word"
    using sint_small [of c] by linarith
  have "unat c \<le> 90"
    if "c \<in> set (map measureCounter (exec_points (loop_body e) s))" for c
  proof (cases "89 <s measureCounter s")
    case True
    with that le show ?thesis by (auto simp add: counters_in_loop)
  next
    case False
    with f le have "unat (measureCounter s) < 90" by simp
    with that False show ?thesis by (auto simp add: counters_in_loop unat_incr)
  qed
  then have 1: "\<forall>p \<in> set (exec_points (loop_body e) s).
        0 \<le> sint (measureCounter p) \<and> sint (measureCounter p) \<le> 90"
    using small by auto
  have "c = 0"
    if "c \<in> set (map measureCounter (tl (exec_points reversal_block (at_point 10 e s))))" for c
    using that by (simp add: counters_in_reversal_block)
  then have 2: "\<forall>p \<in> set (tl (exec_points reversal_block (at_point 10 e s))).
      measureCounter p = 0"
    by auto
  have 3: "89 <s measureCounter s \<longrightarrow> measureCounter (at_point 11 e s) = 0"
    by (simp add: at_point_steps(1) reversal_fields at_point_10)
  from 1 2 3 show ?thesis by blast
qed

text \<open>The end of pass 91, where the reversal has fired.\<close>

theorem counter_bounds_witness:
  "sketch host_RDY_CRLF (replicate 90 0) = Some (the (sketch host_RDY_CRLF (replicate 90 0)))
   \<and> loop 0 (the (sketch host_RDY_CRLF (replicate 90 0)))
       \<in> set (exec_points (loop_body 0) (the (sketch host_RDY_CRLF (replicate 90 0))))
   \<and> 0 \<le> sint (measureCounter (loop 0 (the (sketch host_RDY_CRLF (replicate 90 0)))))
   \<and> sint (measureCounter (loop 0 (the (sketch host_RDY_CRLF (replicate 90 0))))) \<le> 90
   \<and> 89 <s measureCounter (the (sketch host_RDY_CRLF (replicate 90 0)))
   \<and> measureCounter (at_point 11 0 (the (sketch host_RDY_CRLF (replicate 90 0)))) = 0"
proof -
  let ?s = "the (sketch host_RDY_CRLF (replicate 90 0))"
  have a: "sketch host_RDY_CRLF (replicate 90 0) = Some ?s"
    by (rule sketch_RDY_CRLF)
  have m: "loop 0 ?s \<in> set (exec_points (loop_body 0) ?s)"
    unfolding loop_def by (rule exec_in_points)
  have f: "89 <s measureCounter ?s"
    using sketch_fires [OF a] by simp
  from counter_bounds [OF a, of 0] m f a show ?thesis by blast
qed

text \<open>
  Claim C10. A pass reverses exactly when it is pass \<open>90 * k + 1\<close> for some \<open>k > 0\<close>
  (91, 181, 271, ...). In such a pass the counter is 0 after the reversal test and 1 at
  the end of the pass, the direction is flipped, and the events after the report are
  the \<^verbatim>\<open>CDR\<close> marker, \<^verbatim>\<open>changeDirection\<close> with its two writes, and the resume
  writing the new direction's pattern, which the lines hold at the end of the pass.
\<close>

theorem reversal_cycle_ends_at_one:
  "sketch arrivals es = Some s \<Longrightarrow>
     (reversals_in e s = 1 \<longleftrightarrow> (\<exists>k. 0 < k \<and> length es + 1 = 90 * k + 1))
     \<and> (reversals_in e s = 1 \<longrightarrow>
          measureCounter (at_point 11 e s) = 0
          \<and> measureCounter (loop e s) = 1
          \<and> direction (loop e s) = (\<not> direction s)
          \<and> drop 20 (cycle_events e s) =
              [SerialPrintf (''CDR'' @ [LF, CR]), Call ChangeDirection,
               DigitalWrite directionPin1 (\<not> direction s),
               DigitalWrite directionPin2 (direction s),
               Call (StartStop False),
               DigitalWrite directionPin1 (\<not> direction s),
               DigitalWrite directionPin2 (direction s)]
          \<and> pattern (loop e s) = (\<not> direction s, direction s))"
proof -
  assume a: "sketch arrivals es = Some s"
  have f: "(89 <s measureCounter s) = (0 < length es \<and> length es mod 90 = 0)"
    by (rule sketch_fires [OF a])
  have "(0 < length es \<and> length es mod 90 = 0) = (\<exists>k. 0 < k \<and> length es + 1 = 90 * k + 1)"
    by presburger
  with f have 1: "(reversals_in e s = 1) = (\<exists>k. 0 < k \<and> length es + 1 = 90 * k + 1)"
    by (simp add: reversals_in_eq)
  have 2: "measureCounter (at_point 11 e s) = 0
          \<and> measureCounter (loop e s) = 1
          \<and> direction (loop e s) = (\<not> direction s)
          \<and> drop 20 (cycle_events e s) =
              [SerialPrintf (''CDR'' @ [LF, CR]), Call ChangeDirection,
               DigitalWrite directionPin1 (\<not> direction s),
               DigitalWrite directionPin2 (direction s),
               Call (StartStop False),
               DigitalWrite directionPin1 (\<not> direction s),
               DigitalWrite directionPin2 (direction s)]
          \<and> pattern (loop e s) = (\<not> direction s, direction s)"
    if "reversals_in e s = 1"
  proof -
    from that have "89 <s measureCounter s"
      by (simp add: reversals_in_eq split: if_splits)
    then show ?thesis
      by (simp add: at_point_steps(1) reversal_fields at_point_10 measureCounter_loop
          direction_loop cycle_events_eq pattern_loop)
  qed
  from 1 2 show ?thesis by blast
qed

text \<open>Pass 181 reverses back to forward and ends with the counter at 1.\<close>

theorem reversal_cycle_ends_at_one_witness:
  "sketch host_RDY_CRLF (replicate 180 0) = Some (the (sketch host_RDY_CRLF (replicate 180 0)))
   \<and> reversals_in 0 (the (sketch host_RDY_CRLF (replicate 180 0))) = 1
   \<and> measureCounter (loop 0 (the (sketch host_RDY_CRLF (replicate 180 0)))) = 1
   \<and> pattern (loop 0 (the (sketch host_RDY_CRLF (replicate 180 0)))) = (HIGH, LOW)"
proof -
  let ?s = "the (sketch host_RDY_CRLF (replicate 180 0))"
  have a: "sketch host_RDY_CRLF (replicate 180 0) = Some ?s"
    by (rule sketch_RDY_CRLF)
  have d: "\<not> direction ?s"
    using sketch_direction [OF a] by simp
  have k: "\<exists>k. 0 < k \<and> length (replicate 180 (0 :: 32 word)) + 1 = 90 * k + 1"
    by (rule exI [of _ 2]) simp
  from reversal_cycle_ends_at_one [OF a, of 0] k d a show ?thesis by simp
qed


subsection \<open>HandshakeGate\<close>

lemma pass_input_silent:
  "(\<And>j. i \<le> j \<Longrightarrow> arrivals j = []) \<Longrightarrow> pass_input arrivals i [] k = []"
  by (induction k arbitrary: i) simp_all

lemma resume_calls_power_on: "resume_calls power_on = 0"
  by (simp add: resume_calls_def power_on_def)

lemma String_equals_RDY:
  "String_equals input (''RDY'' @ [CR]) = (c_str input = ''RDY'' @ [CR])"
  by (cases input) (simp_all add: String_equals_def c_str_def CR_def NUL_def)

lemmas read_defs = deliveries_def readStringUntil_def String_equals_def c_str_def CR_def LF_def
  NUL_def

text \<open>
  Claim C2, amended. \<^verbatim>\<open>setup\<close> returns if and only if, in some pass of the wait loop,
  the string read up to the line feed compares equal to the literal \<^verbatim>\<open>"RDY\r"\<close>, that
  is, its bytes before its first NUL byte (all of them when it has none) are exactly
  \<^verbatim>\<open>RDY\<close> and a carriage return; if no pass reads such a string the loop never ends.
  Nothing is trimmed: a line \<^verbatim>\<open>RDY\<close> ended by carriage return and line feed is read
  as such a string, and a line \<^verbatim>\<open>RDY\<close> ended by a line feed alone is not; neither are
  the empty string, \<^verbatim>\<open>RDY\<close>, \<^verbatim>\<open>RDYx\<close> with a carriage return, or \<^verbatim>\<open>foo\<close>. When
  \<^verbatim>\<open>setup\<close> returns, \<^verbatim>\<open>startStop(false)\<close> has been called exactly once, the lines hold
  the forward pattern and the counter is 0.
\<close>

theorem handshake_release:
  "((\<exists>s. setup_sketch arrivals power_on = Some s)
      \<longleftrightarrow> (\<exists>k. String_equals (pass_input arrivals 0 [] k) (''RDY'' @ [CR])))
   \<and> ((\<forall>k. \<not> String_equals (pass_input arrivals 0 [] k) (''RDY'' @ [CR]))
      \<longrightarrow> setup_sketch arrivals power_on = None)
   \<and> (setup_sketch arrivals power_on = Some s
      \<longrightarrow> resume_calls s = 1 \<and> pattern s = (HIGH, LOW) \<and> measureCounter s = 0)
   \<and> String_equals input (''RDY'' @ [CR]) = (c_str input = ''RDY'' @ [CR])
   \<and> String_equals (fst (readStringUntil LF (''RDY'' @ [CR, LF]))) (''RDY'' @ [CR])
   \<and> \<not> String_equals (fst (readStringUntil LF (''RDY'' @ [LF]))) (''RDY'' @ [CR])
   \<and> \<not> String_equals [] (''RDY'' @ [CR])
   \<and> \<not> String_equals ''RDY'' (''RDY'' @ [CR])
   \<and> \<not> String_equals (''RDYx'' @ [CR]) (''RDY'' @ [CR])
   \<and> \<not> String_equals ''foo'' (''RDY'' @ [CR])"
proof -
  have 1: "(\<exists>s. setup_sketch arrivals power_on = Some s)
      \<longleftrightarrow> (\<exists>k. String_equals (pass_input arrivals 0 [] k) (''RDY'' @ [CR]))"
    using setup_sketch_Some_iff [of arrivals power_on] by (simp add: power_on_def)
  then have 2: "(\<forall>k. \<not> String_equals (pass_input arrivals 0 [] k) (''RDY'' @ [CR]))
      \<longrightarrow> setup_sketch arrivals power_on = None"
    by (cases "setup_sketch arrivals power_on") auto
  have 3: "resume_calls s = 1 \<and> pattern s = (HIGH, LOW) \<and> measureCounter s = 0"
    if "setup_sketch arrivals power_on = Some s"
    using setup_sketch_frame [OF that] resume_calls_power_on by (simp add: power_on_def)
  have 4: "String_equals (fst (readStringUntil LF (''RDY'' @ [CR, LF]))) (''RDY'' @ [CR])"
    "\<not> String_equals (fst (readStringUntil LF (''RDY'' @ [LF]))) (''RDY'' @ [CR])"
    "\<not> String_equals [] (''RDY'' @ [CR])"
    "\<not> String_equals ''RDY'' (''RDY'' @ [CR])"
    "\<not> String_equals (''RDYx'' @ [CR]) (''RDY'' @ [CR])"
    "\<not> String_equals ''foo'' (''RDY'' @ [CR])"
    by (simp_all add: read_defs)
  from 1 2 3 4 String_equals_RDY [of input] show ?thesis by blast
qed

lemma pass_input_foo_RDY_CRLF: "pass_input host_foo_RDY_CRLF 0 [] 1 = ''RDY'' @ [CR]"
  by (simp add: host_foo_RDY_CRLF_def read_defs)

lemma pass_input_RDY_CR_NUL:
  "pass_input host_RDY_CR_NUL 0 [] 0 = ''RDY'' @ [CR, NUL] @ ''x''"
  by (simp add: host_RDY_CR_NUL_def read_defs)

text \<open>A host that sends \<^verbatim>\<open>foo\<close> and then \<^verbatim>\<open>RDY\<close> with carriage return and line
  feed: the first line is ignored and the second releases the gate. A line with a NUL
  byte after the carriage return releases it too.\<close>

theorem handshake_release_witness:
  "pass_input host_foo_RDY_CRLF 0 [] 0 = ''foo''
   \<and> pass_input host_foo_RDY_CRLF 0 [] 1 = ''RDY'' @ [CR]
   \<and> setup_sketch host_foo_RDY_CRLF power_on
       = Some (the (setup_sketch host_foo_RDY_CRLF power_on))
   \<and> resume_calls (the (setup_sketch host_foo_RDY_CRLF power_on)) = 1
   \<and> pass_input host_RDY_CR_NUL 0 [] 0 = ''RDY'' @ [CR, NUL] @ ''x''
   \<and> setup_sketch host_RDY_CR_NUL power_on \<noteq> None"
proof -
  have 0: "pass_input host_foo_RDY_CRLF 0 [] 0 = ''foo''"
    by (simp add: host_foo_RDY_CRLF_def read_defs)
  have "String_equals (pass_input host_foo_RDY_CRLF 0 [] 1) (''RDY'' @ [CR])"
    unfolding pass_input_foo_RDY_CRLF by (simp add: read_defs)
  then have "\<exists>k. String_equals (pass_input host_foo_RDY_CRLF 0 [] k) (''RDY'' @ [CR])"
    by blast
  with handshake_release [of host_foo_RDY_CRLF]
  have "\<exists>s. setup_sketch host_foo_RDY_CRLF power_on = Some s" by blast
  then have s: "setup_sketch host_foo_RDY_CRLF power_on
       = Some (the (setup_sketch host_foo_RDY_CRLF power_on))" by auto
  with handshake_release [of host_foo_RDY_CRLF "the (setup_sketch host_foo_RDY_CRLF power_on)"]
  have r: "resume_calls (the (setup_sketch host_foo_RDY_CRLF power_on)) = 1" by blast
  have "String_equals (pass_input host_RDY_CR_NUL 0 [] 0) (''RDY'' @ [CR])"
    unfolding pass_input_RDY_CR_NUL by (simp add: read_defs)
  then have "\<exists>k. String_equals (pass_input host_RDY_CR_NUL 0 [] k) (''RDY'' @ [CR])"
    by blast
  with handshake_release [of host_RDY_CR_NUL]
  have "\<exists>s. setup_sketch host_RDY_CR_NUL power_on = Some s" by blast
  then have n: "setup_sketch host_RDY_CR_NUL power_on \<noteq> None" by auto
  from 0 pass_input_foo_RDY_CRLF s r pass_input_RDY_CR_NUL n show ?thesis by blast
qed

text \<open>
  Claim C2 fails as stated: when the host sends \<^verbatim>\<open>foo\<close> and then \<^verbatim>\<open>RDY\<close>, each ended
  by a line feed alone, the second pass reads \<^verbatim>\<open>RDY\<close> and \<^verbatim>\<open>setup\<close> never returns.
\<close>

theorem RDY_LF_releases_counterexample:
  "pass_input host_foo_RDY_LF 0 [] 0 = ''foo''
   \<and> pass_input host_foo_RDY_LF 0 [] 1 = ''RDY''
   \<and> setup_sketch host_foo_RDY_LF power_on = None"
proof -
  have p0: "pass_input host_foo_RDY_LF 0 [] 0 = ''foo''"
    by (simp add: host_foo_RDY_LF_def read_defs)
  have p1: "pass_input host_foo_RDY_LF 0 [] (Suc 0) = ''RDY''"
    by (simp add: host_foo_RDY_LF_def read_defs)
  have later: "pass_input host_foo_RDY_LF 0 [] (Suc (Suc k)) = []" for k
  proof -
    have "pass_input host_foo_RDY_LF 0 [] (Suc (Suc k))
        = pass_input host_foo_RDY_LF (Suc (Suc 0)) [] k"
      by (simp add: host_foo_RDY_LF_def read_defs)
    also have "\<dots> = []"
      by (rule pass_input_silent) (simp add: host_foo_RDY_LF_def deliveries_def)
    finally show ?thesis .
  qed
  have n0: "\<not> String_equals (pass_input host_foo_RDY_LF 0 [] 0) (''RDY'' @ [CR])"
    unfolding p0 by (simp add: read_defs)
  have n1: "\<not> String_equals (pass_input host_foo_RDY_LF 0 [] (Suc 0)) (''RDY'' @ [CR])"
    unfolding p1 by (simp add: read_defs)
  have n2: "\<not> String_equals (pass_input host_foo_RDY_LF 0 [] (Suc (Suc k))) (''RDY'' @ [CR])"
    for k
    unfolding later by (simp add: read_defs)
  have "\<not> String_equals (pass_input host_foo_RDY_LF 0 [] k) (''RDY'' @ [CR])" for k
  proof (cases k)
    case 0
    show ?thesis unfolding 0 by (rule n0)
  next
    case (Suc j)
    show ?thesis unfolding Suc by (cases j) (simp_all only: n0 n1 n2 not_False_eq_True)
  qed
  then have "\<not> (\<exists>s. setup_sketch host_foo_RDY_LF power_on = Some s)"
    using setup_sketch_Some_iff [of host_foo_RDY_LF power_on] by (simp add: power_on_def)
  then have "setup_sketch host_foo_RDY_LF power_on = None" by simp
  with p0 p1 show ?thesis by simp
qed

subsection \<open>Rounding in floating-point arithmetic\<close>

lemma bit_length_upper: "n < 2 ^ bit_length n"
proof (induction n rule: bit_length.induct)
  case (1 n)
  show ?case
  proof (cases "n = 0")
    case True
    then show ?thesis by (simp add: bit_length.simps)
  next
    case False
    with 1 have "n div 2 < 2 ^ bit_length (n div 2)" by simp
    then have "n < 2 * 2 ^ bit_length (n div 2)" by linarith
    with False show ?thesis by (subst bit_length.simps) simp
  qed
qed

lemma bit_length_lower: "0 < n \<Longrightarrow> 2 ^ (bit_length n - 1) \<le> n"
proof (induction n rule: bit_length.induct)
  case (1 n)
  then have n: "n \<noteq> 0" by simp
  have bl: "bit_length n = Suc (bit_length (n div 2))"
    using n by (subst bit_length.simps) simp
  show ?case
  proof (cases "n div 2 = 0")
    case True
    then have "bit_length (n div 2) = 0" by (simp add: bit_length.simps)
    with bl 1 show ?thesis by simp
  next
    case False
    then have pos: "0 < n div 2" by simp
    have IH: "2 ^ (bit_length (n div 2) - 1) \<le> n div 2" using 1 n pos by simp
    have "bit_length (n div 2) \<noteq> 0"
      using False by (subst bit_length.simps) simp
    then obtain k where k: "bit_length (n div 2) = Suc k" by (cases "bit_length (n div 2)") auto
    from IH k have "2 ^ k \<le> n div 2" by simp
    then have "(2::nat) * 2 ^ k \<le> n" by linarith
    with bl k show ?thesis by simp
  qed
qed

lemma pow2_pos: "0 < pow2 e"
  by (simp add: pow2_def)

lemma pow2_power_int: "pow2 e = power_int 2 e"
  by (simp add: pow2_def power_int_def field_simps)

lemma pow2_add: "pow2 (a + b) = pow2 a * pow2 b"
  by (simp add: pow2_power_int power_int_add)

lemma ilog2_lower:
  assumes "0 < q"
  shows "pow2 (ilog2 q) \<le> q"
proof (cases "1 \<le> q")
  case True
  let ?n = "nat \<lfloor>q\<rfloor>"
  have n: "0 < ?n" using True by simp
  have "2 ^ (bit_length ?n - 1) \<le> ?n" by (rule bit_length_lower [OF n])
  then have "(2::rat) ^ (bit_length ?n - 1) \<le> of_nat ?n"
    by (metis of_nat_le_iff of_nat_numeral of_nat_power)
  also have "\<dots> \<le> q" using True by simp
  finally have le: "(2::rat) ^ (bit_length ?n - 1) \<le> q" .
  have "bit_length ?n \<noteq> 0" using n by (subst bit_length.simps) simp
  then have "pow2 (int (bit_length ?n) - 1) = 2 ^ (bit_length ?n - 1)"
    by (simp add: pow2_def nat_diff_distrib')
  with True le show ?thesis by (simp add: ilog2_def)
next
  case False
  let ?m = "nat (\<lceil>1 / q\<rceil> - 1)"
  have "?m < 2 ^ bit_length ?m" by (rule bit_length_upper)
  then have "int ?m + 1 \<le> int (2 ^ bit_length ?m)" by linarith
  moreover have "\<lceil>1 / q\<rceil> \<le> int ?m + 1" by linarith
  ultimately have "\<lceil>1 / q\<rceil> \<le> int (2 ^ bit_length ?m)" by linarith
  then have "1 / q \<le> of_int (int (2 ^ bit_length ?m))" by (simp only: ceiling_le_iff)
  then have "1 / q \<le> 2 ^ bit_length ?m" by simp
  then have "1 / 2 ^ bit_length ?m \<le> q"
    using assms by (simp add: field_simps)
  moreover have "pow2 (- int (bit_length ?m)) = 1 / 2 ^ bit_length ?m"
    by (simp add: pow2_def)
  ultimately show ?thesis using False by (simp add: ilog2_def)
qed

lemma round_half_even_error: "\<bar>of_int (round_half_even x) - x\<bar> \<le> 1 / 2"
proof -
  have "of_int \<lfloor>x\<rfloor> \<le> x" "x < of_int \<lfloor>x\<rfloor> + 1" by linarith+
  then show ?thesis
    by (auto simp add: round_half_even_def Let_def abs_le_iff)
qed

lemma fp_round_error:
  assumes "0 < p"
  shows "\<bar>fp_round p q - q\<bar> \<le> \<bar>q\<bar> / 2 ^ p"
proof (cases "q = 0")
  case True
  then show ?thesis by (simp add: fp_round_def)
next
  case False
  define u where "u = pow2 (ilog2 \<bar>q\<bar> - int p + 1)"
  have u: "0 < u" by (simp add: u_def pow2_pos)
  have fp: "fp_round p q = of_int (round_half_even (q / u)) * u"
    using False by (simp add: fp_round_def u_def Let_def)
  have "of_int (round_half_even (q / u)) * u - q
      = (of_int (round_half_even (q / u)) - q / u) * u"
    using u by (simp add: field_simps)
  then have "\<bar>fp_round p q - q\<bar> = \<bar>of_int (round_half_even (q / u)) - q / u\<bar> * \<bar>u\<bar>"
    by (simp only: fp abs_mult)
  also have "\<dots> = \<bar>of_int (round_half_even (q / u)) - q / u\<bar> * u"
    using u by simp
  also have "\<dots> \<le> (1 / 2) * u"
    using round_half_even_error [of "q / u"] u by (intro mult_right_mono) simp_all
  also have "(1 / 2) * u = pow2 (ilog2 \<bar>q\<bar>) / 2 ^ p"
  proof -
    have "ilog2 \<bar>q\<bar> - int p + 1 = ilog2 \<bar>q\<bar> + (- int p + 1)" by simp
    then have "u = pow2 (ilog2 \<bar>q\<bar>) * pow2 (- int p + 1)"
      unfolding u_def by (simp only: pow2_add)
    moreover have "pow2 (- int p + 1) = 2 / 2 ^ p"
      using assms by (cases p) (simp_all add: pow2_def)
    ultimately show ?thesis by simp
  qed
  also have "\<dots> \<le> \<bar>q\<bar> / 2 ^ p"
    using ilog2_lower [of "\<bar>q\<bar>"] False by (simp add: divide_right_mono)
  finally show ?thesis .
qed


lemma fp_round_rel:
  assumes p: "0 < p" and k: "0 \<le> k" and q: "\<bar>q - y\<bar> \<le> k * \<bar>y\<bar>"
  shows "\<bar>fp_round p q - y\<bar> \<le> ((1 + k) * (1 + 1 / 2 ^ p) - 1) * \<bar>y\<bar>"
proof -
  have "\<bar>q\<bar> \<le> \<bar>y\<bar> + \<bar>q - y\<bar>" by linarith
  with q have qy: "\<bar>q\<bar> \<le> (1 + k) * \<bar>y\<bar>" by (simp add: algebra_simps)
  have "\<bar>fp_round p q - q\<bar> \<le> \<bar>q\<bar> / 2 ^ p" by (rule fp_round_error [OF p])
  also have "\<dots> \<le> ((1 + k) * \<bar>y\<bar>) / 2 ^ p"
    using qy by (simp add: divide_right_mono)
  finally have "\<bar>fp_round p q - q\<bar> \<le> ((1 + k) * \<bar>y\<bar>) / 2 ^ p" .
  moreover have "\<bar>fp_round p q - y\<bar> \<le> \<bar>fp_round p q - q\<bar> + \<bar>q - y\<bar>" by linarith
  ultimately have "\<bar>fp_round p q - y\<bar> \<le> ((1 + k) * \<bar>y\<bar>) / 2 ^ p + k * \<bar>y\<bar>"
    using q by linarith
  also have "\<dots> = ((1 + k) * (1 + 1 / 2 ^ p) - 1) * \<bar>y\<bar>"
    by (simp add: algebra_simps)
  finally show ?thesis .
qed

lemma raw_distance_error:
  "\<bar>raw_distance t - of_int (sint t) * (17 / 1000)\<bar> \<le> \<bar>of_int (sint t) * (17 / 1000)\<bar> / 2 ^ 23"
proof -
  define T :: rat where "T = of_int (sint t)"
  define eps :: rat where "eps = 1 / 2 ^ 53"
  define c where "c = to_double (34 / 1000)"
  define x1 where "x1 = to_double (T * c)"
  define x2 where "x2 = to_double (x1 / 2)"
  have eps: "0 \<le> eps" by (simp add: eps_def)
  have "\<bar>c - 34 / 1000\<bar> \<le> ((1 + 0) * (1 + 1 / 2 ^ 53) - 1) * \<bar>34 / 1000 :: rat\<bar>"
    unfolding c_def to_double_def by (rule fp_round_rel) simp_all
  then have c: "\<bar>c - 34 / 1000\<bar> \<le> eps * \<bar>34 / 1000 :: rat\<bar>"
    by (simp add: eps_def)
  have "\<bar>T * c - T * (34 / 1000)\<bar> = \<bar>T\<bar> * \<bar>c - 34 / 1000\<bar>"
    by (simp only: right_diff_distrib [symmetric] abs_mult)
  also have "\<dots> \<le> \<bar>T\<bar> * (eps * \<bar>34 / 1000 :: rat\<bar>)"
    using c by (intro mult_left_mono) simp_all
  also have "\<dots> = eps * \<bar>T * (34 / 1000)\<bar>"
    by (simp only: abs_mult mult_ac)
  finally have "\<bar>T * c - T * (34 / 1000)\<bar> \<le> eps * \<bar>T * (34 / 1000)\<bar>" .
  then have "\<bar>x1 - T * (34 / 1000)\<bar>
      \<le> ((1 + eps) * (1 + 1 / 2 ^ 53) - 1) * \<bar>T * (34 / 1000)\<bar>"
    unfolding x1_def to_double_def using eps by (intro fp_round_rel) simp_all
  then have "\<bar>x1 / 2 - T * (17 / 1000)\<bar>
      \<le> ((1 + eps) * (1 + 1 / 2 ^ 53) - 1) * \<bar>T * (17 / 1000)\<bar>"
    by (simp add: abs_mult field_simps)
  moreover have "0 \<le> (1 + eps) * (1 + 1 / 2 ^ 53) - 1"
    by (simp add: eps_def)
  ultimately have "\<bar>x2 - T * (17 / 1000)\<bar>
      \<le> ((1 + ((1 + eps) * (1 + 1 / 2 ^ 53) - 1)) * (1 + 1 / 2 ^ 53) - 1) * \<bar>T * (17 / 1000)\<bar>"
    unfolding x2_def to_double_def by (intro fp_round_rel) simp_all
  moreover have "0 \<le> (1 + ((1 + eps) * (1 + 1 / 2 ^ 53) - 1)) * (1 + 1 / 2 ^ 53) - 1"
    by (simp add: eps_def)
  ultimately have "\<bar>to_float x2 - T * (17 / 1000)\<bar>
      \<le> ((1 + ((1 + ((1 + eps) * (1 + 1 / 2 ^ 53) - 1)) * (1 + 1 / 2 ^ 53) - 1))
           * (1 + 1 / 2 ^ 24) - 1) * \<bar>T * (17 / 1000)\<bar>"
    unfolding to_float_def by (intro fp_round_rel) simp_all
  also have "\<dots> \<le> (1 / 2 ^ 23) * \<bar>T * (17 / 1000)\<bar>"
    by (intro mult_right_mono) (simp_all add: eps_def)
  finally show ?thesis
    by (simp add: raw_distance_def x2_def x1_def c_def T_def)
qed

lemma raw_distance_values:
  "raw_distance 0 = 0" "raw_distance 1000 = 17" "raw_distance 30000 = 510"
  by code_simp+


lemma fp_round_magnitude:
  assumes p: "0 < p" and lo: "lo \<le> \<bar>q\<bar>" and hi: "\<bar>q\<bar> \<le> hi"
  shows "lo * (1 - 1 / 2 ^ p) \<le> \<bar>fp_round p q\<bar>" "\<bar>fp_round p q\<bar> \<le> hi * (1 + 1 / 2 ^ p)"
proof -
  have e: "\<bar>fp_round p q - q\<bar> \<le> \<bar>q\<bar> / 2 ^ p" by (rule fp_round_error [OF p])
  have pos: "0 \<le> 1 - 1 / (2::rat) ^ p"
    by (simp add: field_simps)
  have "lo * (1 - 1 / 2 ^ p) \<le> \<bar>q\<bar> * (1 - 1 / 2 ^ p)"
    using lo pos by (rule mult_right_mono)
  also have "\<dots> = \<bar>q\<bar> - \<bar>q\<bar> / 2 ^ p" by (simp add: algebra_simps)
  also have "\<dots> \<le> \<bar>fp_round p q\<bar>" using e by linarith
  finally show "lo * (1 - 1 / 2 ^ p) \<le> \<bar>fp_round p q\<bar>" .
  have "\<bar>fp_round p q\<bar> \<le> \<bar>q\<bar> + \<bar>q\<bar> / 2 ^ p" using e by linarith
  also have "\<dots> = \<bar>q\<bar> * (1 + 1 / 2 ^ p)" by (simp add: algebra_simps)
  also have "\<dots> \<le> hi * (1 + 1 / 2 ^ p)"
    using hi by (intro mult_right_mono) simp_all
  finally show "\<bar>fp_round p q\<bar> \<le> hi * (1 + 1 / 2 ^ p)" .
qed

lemma to_double_0034: "to_double (34 / 1000) = 1224979098644775 / 36028797018963968"
  by code_simp

lemma sint_32_bound: "\<bar>sint (t :: 32 word)\<bar> \<le> 2 ^ 31"
  using sint_ge [of t] sint_lt [of t] by simp

text \<open>
  The exponent is not bounded in \<open>fp_round\<close>. That loses nothing here: for a duration
  other than 0, the product, the quotient and the stored \<^verbatim>\<open>float\<close> all lie between
  \<open>2 ^ -6\<close> and \<open>2 ^ 27\<close> in magnitude, inside the normal range of both formats.
\<close>

lemma normal_range:
  fixes t :: "32 word"
  assumes "sint t \<noteq> 0"
  defines "x1 \<equiv> to_double (of_int (sint t) * to_double (34 / 1000))"
  defines "x2 \<equiv> to_double (x1 / 2)"
  shows "1 / 32 \<le> \<bar>x1\<bar> \<and> \<bar>x1\<bar> \<le> 2 ^ 27"
    and "1 / 64 \<le> \<bar>x2\<bar> \<and> \<bar>x2\<bar> \<le> 2 ^ 26"
    and "1 / 64 \<le> \<bar>raw_distance t\<bar> \<and> \<bar>raw_distance t\<bar> \<le> 2 ^ 26"
proof -
  define T :: rat where "T = of_int (sint t)"
  define c :: rat where "c = 1224979098644775 / 36028797018963968"
  have T1: "1 \<le> \<bar>T\<bar>"
  proof -
    have "1 \<le> \<bar>sint t\<bar>" using assms(1) by linarith
    then have "of_int 1 \<le> (of_int \<bar>sint t\<bar> :: rat)" by (simp only: of_int_le_iff)
    then show ?thesis by (simp add: T_def)
  qed
  have T2: "\<bar>T\<bar> \<le> 2 ^ 31"
  proof -
    have "(of_int \<bar>sint t\<bar> :: rat) \<le> of_int (2 ^ 31)"
      using sint_32_bound [of t] by (simp only: of_int_le_iff)
    then show ?thesis by (simp add: T_def)
  qed
  have lo: "c \<le> \<bar>T * c\<bar>"
    using T1 by (simp add: abs_mult c_def)
  have hi: "\<bar>T * c\<bar> \<le> 2 ^ 31 * c"
    using T2 by (simp add: abs_mult c_def)
  have x1: "x1 = fp_round 53 (T * c)"
    unfolding x1_def to_double_0034 by (simp only: to_double_def T_def c_def)
  have a1: "c * (1 - 1 / 2 ^ 53) \<le> \<bar>x1\<bar>" and b1: "\<bar>x1\<bar> \<le> 2 ^ 31 * c * (1 + 1 / 2 ^ 53)"
    unfolding x1 using fp_round_magnitude [OF _ lo hi, of 53] by simp_all
  have "1 / 32 \<le> c * (1 - 1 / 2 ^ 53)" "2 ^ 31 * c * (1 + 1 / 2 ^ 53) \<le> 2 ^ 27"
    by (simp_all add: c_def)
  with a1 b1 show r1: "1 / 32 \<le> \<bar>x1\<bar> \<and> \<bar>x1\<bar> \<le> 2 ^ 27" by linarith
  then have lo2: "1 / 64 \<le> \<bar>x1 / 2\<bar>" and hi2: "\<bar>x1 / 2\<bar> \<le> 2 ^ 26"
    by simp_all
  have h: "\<bar>x1 / 2\<bar> \<le> 2 ^ 31 * c * (1 + 1 / 2 ^ 53) / 2" 
    and l: "c * (1 - 1 / 2 ^ 53) / 2 \<le> \<bar>x1 / 2\<bar>" using a1 b1 by simp_all
  have a2: "c * (1 - 1 / 2 ^ 53) / 2 * (1 - 1 / 2 ^ 53) \<le> \<bar>x2\<bar>"
    and b2: "\<bar>x2\<bar> \<le> 2 ^ 31 * c * (1 + 1 / 2 ^ 53) / 2 * (1 + 1 / 2 ^ 53)"
    unfolding x2_def to_double_def using fp_round_magnitude [OF _ l h, of 53] by simp_all
  have "1 / 64 \<le> c * (1 - 1 / 2 ^ 53) / 2 * (1 - 1 / 2 ^ 53)"
    "2 ^ 31 * c * (1 + 1 / 2 ^ 53) / 2 * (1 + 1 / 2 ^ 53) \<le> 2 ^ 26"
    by (simp_all add: c_def)
  with a2 b2 show "1 / 64 \<le> \<bar>x2\<bar> \<and> \<bar>x2\<bar> \<le> 2 ^ 26" by linarith
  have r: "raw_distance t = fp_round 24 x2"
    by (simp add: raw_distance_def x2_def x1_def to_float_def)
  have a3: "c * (1 - 1 / 2 ^ 53) / 2 * (1 - 1 / 2 ^ 53) * (1 - 1 / 2 ^ 24) \<le> \<bar>raw_distance t\<bar>"
    and b3: "\<bar>raw_distance t\<bar>
      \<le> 2 ^ 31 * c * (1 + 1 / 2 ^ 53) / 2 * (1 + 1 / 2 ^ 53) * (1 + 1 / 2 ^ 24)"
    unfolding r using fp_round_magnitude [OF _ a2 b2, of 24] by simp_all
  have "1 / 64 \<le> c * (1 - 1 / 2 ^ 53) / 2 * (1 - 1 / 2 ^ 53) * (1 - 1 / 2 ^ 24)"
    "2 ^ 31 * c * (1 + 1 / 2 ^ 53) / 2 * (1 + 1 / 2 ^ 53) * (1 + 1 / 2 ^ 24) \<le> 2 ^ 26"
    by (simp_all add: c_def)
  with a3 b3 show "1 / 64 \<le> \<bar>raw_distance t\<bar> \<and> \<bar>raw_distance t\<bar> \<le> 2 ^ 26" by linarith
qed

text \<open>
  Halving is exact and rounding is idempotent, so the sketch's
  \<^verbatim>\<open>duration * 0.034 / 2\<close> is the same value as \<^verbatim>\<open>duration * 0.017\<close> in its arithmetic.
\<close>

lemma pow2_mono: "a \<le> b \<Longrightarrow> pow2 a \<le> pow2 b"
proof -
  assume "a \<le> b"
  then have d: "0 \<le> b - a" by simp
  have "pow2 b = pow2 (a + (b - a))" by simp
  also have "\<dots> = pow2 a * pow2 (b - a)" by (rule pow2_add)
  finally have e: "pow2 b = pow2 a * pow2 (b - a)" .
  have "1 \<le> pow2 (b - a)" using d by (simp add: pow2_def)
  then have "pow2 a * 1 \<le> pow2 a * pow2 (b - a)"
    using pow2_pos [of a] by (intro mult_left_mono) simp_all
  with e show ?thesis by simp
qed

lemma pow2_Suc: "pow2 (e + 1) = 2 * pow2 e"
  using pow2_add [of e 1] by (simp add: pow2_def)

lemma ilog2_upper:
  assumes "0 < q"
  shows "q < pow2 (ilog2 q + 1)"
proof (cases "1 \<le> q")
  case True
  let ?n = "nat \<lfloor>q\<rfloor>"
  have "?n < 2 ^ bit_length ?n" by (rule bit_length_upper)
  then have "int ?n + 1 \<le> int (2 ^ bit_length ?n)" by linarith
  moreover have "\<lfloor>q\<rfloor> = int ?n" using True by simp
  ultimately have "\<lfloor>q\<rfloor> + 1 \<le> int (2 ^ bit_length ?n)" by simp
  then have "(of_int (\<lfloor>q\<rfloor> + 1) :: rat) \<le> of_int (int (2 ^ bit_length ?n))"
    by (simp only: of_int_le_iff)
  moreover have "q < of_int (\<lfloor>q\<rfloor> + 1)" by linarith
  ultimately have "q < 2 ^ bit_length ?n" by simp
  moreover have "pow2 (int (bit_length ?n) - 1 + 1) = 2 ^ bit_length ?n"
    by (simp add: pow2_def)
  ultimately show ?thesis using True by (simp add: ilog2_def)
next
  case False
  let ?m = "nat (\<lceil>1 / q\<rceil> - 1)"
  from False assms have "1 < 1 / q" by (simp add: field_simps)
  then have "2 \<le> \<lceil>1 / q\<rceil>" by linarith
  then have m: "0 < ?m" "int ?m = \<lceil>1 / q\<rceil> - 1" by linarith+
  have "2 ^ (bit_length ?m - 1) \<le> ?m" by (rule bit_length_lower [OF m(1)])
  then have "int (2 ^ (bit_length ?m - 1)) \<le> \<lceil>1 / q\<rceil> - 1" using m(2) by linarith
  then have "(of_int (int (2 ^ (bit_length ?m - 1))) :: rat) \<le> of_int (\<lceil>1 / q\<rceil> - 1)"
    by (simp only: of_int_le_iff)
  moreover have "of_int (\<lceil>1 / q\<rceil> - 1) < 1 / q" by linarith
  ultimately have lt: "2 ^ (bit_length ?m - 1) < 1 / q" by simp
  have bl: "bit_length ?m \<noteq> 0" using m(1) by (subst bit_length.simps) simp
  then obtain k where k: "bit_length ?m = Suc k" by (cases "bit_length ?m") auto
  from lt k have "q * 2 ^ k < 1" using assms by (simp add: field_simps)
  then have "q < 1 / 2 ^ k" using assms by (simp add: field_simps)
  moreover have "pow2 (- int (bit_length ?m) + 1) = 1 / 2 ^ k"
    unfolding k by (simp add: pow2_def)
  ultimately show ?thesis using False by (simp add: ilog2_def)
qed

lemma ilog2_unique:
  assumes "0 < q" "pow2 e \<le> q" "q < pow2 (e + 1)"
  shows "ilog2 q = e"
proof (rule ccontr)
  assume "ilog2 q \<noteq> e"
  then consider "ilog2 q + 1 \<le> e" | "e + 1 \<le> ilog2 q" by linarith
  then show False
  proof cases
    case 1
    then have "pow2 (ilog2 q + 1) \<le> pow2 e" by (rule pow2_mono)
    with assms(2) ilog2_upper [OF assms(1)] show False by linarith
  next
    case 2
    then have "pow2 (e + 1) \<le> pow2 (ilog2 q)" by (rule pow2_mono)
    with assms(3) ilog2_lower [OF assms(1)] show False by linarith
  qed
qed

lemma ilog2_half:
  assumes "0 < q"
  shows "ilog2 (q / 2) = ilog2 q - 1"
proof (rule ilog2_unique)
  show "0 < q / 2" using assms by simp
  have "pow2 (ilog2 q) = 2 * pow2 (ilog2 q - 1)"
    using pow2_Suc [of "ilog2 q - 1"] by simp
  with ilog2_lower [OF assms] show "pow2 (ilog2 q - 1) \<le> q / 2" by simp
  from ilog2_upper [OF assms] show "q / 2 < pow2 (ilog2 q - 1 + 1)"
    by (simp add: pow2_Suc)
qed

lemma fp_round_nonzero:
  "q \<noteq> 0 \<Longrightarrow> fp_round p q
     = of_int (round_half_even (q / pow2 (ilog2 \<bar>q\<bar> - int p + 1))) * pow2 (ilog2 \<bar>q\<bar> - int p + 1)"
  by (simp add: fp_round_def Let_def)

lemma fp_round_half: "fp_round p (q / 2) = fp_round p q / 2"
proof (cases "q = 0")
  case True
  then show ?thesis by (simp add: fp_round_def)
next
  case False
  define e where "e = ilog2 \<bar>q\<bar> - int p + 1"
  have h: "q / 2 \<noteq> 0" using False by simp
  have "\<bar>q / 2\<bar> = \<bar>q\<bar> / 2" by simp
  then have "ilog2 \<bar>q / 2\<bar> = ilog2 \<bar>q\<bar> - 1"
    using ilog2_half [of "\<bar>q\<bar>"] False by simp
  then have l: "ilog2 \<bar>q / 2\<bar> - int p + 1 = e - 1" by (simp add: e_def)
  have two: "pow2 e = 2 * pow2 (e - 1)" using pow2_Suc [of "e - 1"] by simp
  have c: "(q / 2) / pow2 (e - 1) = q / pow2 e"
    unfolding two by simp
  have "fp_round p (q / 2) = of_int (round_half_even (q / pow2 e)) * pow2 (e - 1)"
    unfolding fp_round_nonzero [OF h] l c ..
  also have "\<dots> = (of_int (round_half_even (q / pow2 e)) * pow2 e) / 2"
    unfolding two by simp
  also have "\<dots> = fp_round p q / 2"
    unfolding fp_round_nonzero [OF False] e_def ..
  finally show ?thesis .
qed

lemma round_half_even_bounds:
  "of_int k \<le> x \<Longrightarrow> k \<le> round_half_even x" "x \<le> of_int k \<Longrightarrow> round_half_even x \<le> k"
proof -
  have f: "of_int \<lfloor>x\<rfloor> \<le> x" "x < of_int \<lfloor>x\<rfloor> + 1" by linarith+
  show "k \<le> round_half_even x" if "of_int k \<le> x"
  proof -
    from that have "k \<le> \<lfloor>x\<rfloor>" by (simp add: le_floor_iff)
    then show ?thesis by (simp add: round_half_even_def Let_def)
  qed
  show "round_half_even x \<le> k" if "x \<le> of_int k"
  proof (cases "\<lfloor>x\<rfloor> = k")
    case True
    with that f(1) have "x = of_int \<lfloor>x\<rfloor>" by simp
    then have "x - of_int \<lfloor>x\<rfloor> = 0" by simp
    then show ?thesis using True by (simp add: round_half_even_def Let_def)
  next
    case False
    have "\<lfloor>x\<rfloor> \<le> k" using that by (simp add: floor_le_iff)
    with False have "\<lfloor>x\<rfloor> + 1 \<le> k" by simp
    then show ?thesis by (simp add: round_half_even_def Let_def)
  qed
qed

lemma round_half_even_of_int [simp]: "round_half_even (of_int k) = k"
  by (simp add: round_half_even_def)

lemma pow2_add_nat: "pow2 (a + int n) = pow2 a * 2 ^ n"
  using pow2_add [of a "int n"] by (simp add: pow2_def)


lemma fp_round_idem:
  assumes p: "0 < p"
  shows "fp_round p (fp_round p q) = fp_round p q"
proof (cases "q = 0")
  case True
  then show ?thesis by (simp add: fp_round_def)
next
  case False
  define e where "e = ilog2 \<bar>q\<bar>"
  define u where "u = pow2 (e - int p + 1)"
  define x where "x = q / u"
  define m where "m = round_half_even x"
  define v where "v = of_int m * u"
  obtain n where n: "p = Suc n" using p by (cases p) auto
  have u: "0 < u" by (simp add: u_def pow2_pos)
  have v: "fp_round p q = v"
    by (simp add: fp_round_nonzero [OF False] v_def m_def x_def u_def e_def)
  have lo: "pow2 e = 2 ^ n * u"
    using pow2_add_nat [of "e - int p + 1" n] by (simp add: u_def n)
  have hi: "pow2 (e + 1) = 2 ^ p * u"
    using pow2_add_nat [of "e - int p + 1" p] by (simp add: u_def)
  have q1: "2 ^ n * u \<le> \<bar>q\<bar>" and q2: "\<bar>q\<bar> < 2 ^ p * u"
    using ilog2_lower [of "\<bar>q\<bar>"] ilog2_upper [of "\<bar>q\<bar>"] False
    by (simp_all add: e_def [symmetric] lo hi)
  have ax: "\<bar>x\<bar> = \<bar>q\<bar> / u" using u by (simp add: x_def)
  have x1: "2 ^ n \<le> \<bar>x\<bar>"
    unfolding ax using q1 by (simp only: pos_le_divide_eq [OF u])
  have x2: "\<bar>x\<bar> < 2 ^ p"
    unfolding ax using q2 by (simp only: pos_divide_less_eq [OF u])
  have m1: "2 ^ n \<le> \<bar>m\<bar>" and m2: "\<bar>m\<bar> \<le> 2 ^ p"
  proof -
    show "2 ^ n \<le> \<bar>m\<bar>"
    proof (cases "0 \<le> x")
      case True
      with x1 have "2 ^ n \<le> x" by linarith
      then have "of_int (2 ^ n) \<le> x" by simp
      then have "2 ^ n \<le> m" unfolding m_def by (rule round_half_even_bounds)
      then show ?thesis by linarith
    next
      case False
      with x1 have "x \<le> - (2 ^ n)" by linarith
      then have "x \<le> of_int (- (2 ^ n))" by simp
      then have "m \<le> - (2 ^ n)" unfolding m_def by (rule round_half_even_bounds)
      then show ?thesis by linarith
    qed
    have "x \<le> 2 ^ p" using x2 by linarith
    then have "x \<le> of_int (2 ^ p)" by simp
    then have a: "m \<le> 2 ^ p" unfolding m_def by (rule round_half_even_bounds)
    have "- (2 ^ p) \<le> x" using x2 by linarith
    then have "of_int (- (2 ^ p)) \<le> x" by simp
    then have b: "- (2 ^ p) \<le> m" unfolding m_def by (rule round_half_even_bounds)
    from a b show "\<bar>m\<bar> \<le> 2 ^ p" by linarith
  qed
  have absv: "\<bar>v\<bar> = of_int \<bar>m\<bar> * u" using u by (simp add: v_def abs_mult)
  have m0: "m \<noteq> 0"
  proof
    assume "m = 0"
    with m1 have "(2::int) ^ n \<le> 0" by simp
    then show False by simp
  qed
  then have v0: "v \<noteq> 0" using u by (simp add: v_def)
  have r1: "(2::rat) ^ n \<le> of_int \<bar>m\<bar>"
  proof -
    have "(of_int (2 ^ n) :: rat) \<le> of_int \<bar>m\<bar>" using m1 by (simp only: of_int_le_iff)
    then show ?thesis by simp
  qed
  show ?thesis
  proof (cases "\<bar>m\<bar> = 2 ^ p")
    case True
    have "\<bar>v\<bar> = pow2 (e + 1)" by (simp add: absv True hi)
    moreover have "pow2 (e + 1 + 1) = 2 * pow2 (e + 1)" by (rule pow2_Suc)
    ultimately have "pow2 (e + 1) \<le> \<bar>v\<bar>" "\<bar>v\<bar> < pow2 (e + 1 + 1)"
      using pow2_pos [of "e + 1"] by linarith+
    then have "ilog2 \<bar>v\<bar> = e + 1" using v0 by (intro ilog2_unique) simp_all
    then have "ilog2 \<bar>v\<bar> - int p + 1 = (e - int p + 1) + 1" by simp
    then have "pow2 (ilog2 \<bar>v\<bar> - int p + 1) = 2 * u"
      by (simp only: pow2_Suc u_def)
    then have f: "fp_round p v = of_int (round_half_even (v / (2 * u))) * (2 * u)"
      by (simp add: fp_round_nonzero [OF v0])
    from True have "m = 2 * 2 ^ n \<or> m = 2 * (- (2 ^ n))" unfolding n by (simp only: power_Suc) linarith
    then obtain h where h: "m = 2 * h" by blast
    have vh: "v = of_int h * (2 * u)" by (simp add: v_def h)
    then have "v / (2 * u) = of_int h" using u by simp
    then have "fp_round p v = of_int h * (2 * u)" unfolding f by simp
    then show ?thesis by (simp only: v vh)
  next
    case False
    with m2 have "\<bar>m\<bar> < 2 ^ p" by simp
    then have "(of_int \<bar>m\<bar> :: rat) < of_int (2 ^ p)" by (simp only: of_int_less_iff)
    then have r2: "of_int \<bar>m\<bar> < (2::rat) ^ p" by simp
    have "pow2 e \<le> \<bar>v\<bar>" "\<bar>v\<bar> < pow2 (e + 1)"
      using r1 r2 u by (simp_all add: absv lo hi)
    then have "ilog2 \<bar>v\<bar> = e" using v0 by (intro ilog2_unique) simp_all
    then have "pow2 (ilog2 \<bar>v\<bar> - int p + 1) = u" by (simp add: u_def)
    then have "fp_round p v = of_int (round_half_even (v / u)) * u"
      by (simp add: fp_round_nonzero [OF v0])
    moreover have "v / u = of_int m" using u by (simp add: v_def)
    ultimately have "fp_round p v = of_int m * u" by simp
    then show ?thesis by (simp add: v v_def)
  qed
qed

lemma raw_distance_alt:
  "raw_distance t = to_float (to_double (of_int (sint t) * to_double (17 / 1000)))"
proof -
  have "to_double (17 / 1000) = to_double ((34 / 1000) / 2)" by simp
  also have "\<dots> = to_double (34 / 1000) / 2" unfolding to_double_def by (rule fp_round_half)
  finally have c: "to_double (17 / 1000) = to_double (34 / 1000) / 2" .
  have "to_double (of_int (sint t) * to_double (17 / 1000))
      = to_double ((of_int (sint t) * to_double (34 / 1000)) / 2)"
    unfolding c by simp
  also have "\<dots> = to_double (of_int (sint t) * to_double (34 / 1000)) / 2"
    unfolding to_double_def by (rule fp_round_half)
  also have "\<dots> = to_double (to_double (of_int (sint t) * to_double (34 / 1000))) / 2"
    unfolding to_double_def by (simp only: fp_round_idem [of 53, simplified])
  also have "\<dots> = to_double (to_double (of_int (sint t) * to_double (34 / 1000)) / 2)"
    unfolding to_double_def by (rule fp_round_half [symmetric])
  finally show ?thesis by (simp only: raw_distance_def)
qed

subsection \<open>RangeSensor\<close>

text \<open>
  Claim C1. For every echo duration, \<^verbatim>\<open>calculateDistanceCM\<close> returns the raw distance
  when it lies in \<open>[2, 400]\<close> and 0 otherwise. The raw distance is the value of
  \<^verbatim>\<open>duration * 0.034 / 2\<close> in the sketch's floating-point arithmetic, which is the
  value of \<^verbatim>\<open>duration * 0.017\<close> in that arithmetic, and differs from \<open>0.017\<close> times
  the duration by a relative rounding error of at most \<open>2 ^ -23\<close>. So the result is 0
  or in \<open>[2, 400]\<close>. A duration of 0 gives 0, a duration of 1000 gives exactly 17,
  which the pass of the loop stores and reports, and a duration of 30000 (raw distance
  510) gives 0.
\<close>

theorem calculateDistanceCM_envelope:
  "fst (calculateDistanceCM echo s)
     = (if 2 \<le> raw_distance echo \<and> raw_distance echo \<le> 400 then raw_distance echo else 0)
   \<and> raw_distance echo
       = to_float (to_double (to_double (of_int (sint echo) * to_double (34 / 1000)) / 2))
   \<and> raw_distance echo = to_float (to_double (of_int (sint echo) * to_double (17 / 1000)))
   \<and> \<bar>raw_distance echo - of_int (sint echo) * (17 / 1000)\<bar>
       \<le> \<bar>of_int (sint echo) * (17 / 1000)\<bar> / 2 ^ 23
   \<and> (fst (calculateDistanceCM echo s) = 0
       \<or> 2 \<le> fst (calculateDistanceCM echo s) \<and> fst (calculateDistanceCM echo s) \<le> 400)
   \<and> fst (calculateDistanceCM 0 s) = 0
   \<and> fst (calculateDistanceCM 1000 s) = 17
   \<and> fst (calculateDistanceCM 30000 s) = 0
   \<and> distance (loop 1000 s) = 17
   \<and> SerialPrintfDistance 17 \<in> set (cycle_events 1000 s)"
proof -
  have v: "fst (calculateDistanceCM e s)
     = (if 2 \<le> raw_distance e \<and> raw_distance e \<le> 400 then raw_distance e else 0)" for e s
    by (simp add: calculateDistanceCM_value MIN_VALUE_def MAX_VALUE_def)
  have r: "fst (calculateDistanceCM echo s) = 0
       \<or> 2 \<le> fst (calculateDistanceCM echo s) \<and> fst (calculateDistanceCM echo s) \<le> 400"
    by (simp add: v)
  have c: "fst (calculateDistanceCM 0 s) = 0" "fst (calculateDistanceCM 1000 s) = 17"
    "fst (calculateDistanceCM 30000 s) = 0" for s
    by (simp_all add: v raw_distance_values)
  have l: "distance (loop 1000 s) = 17"
    by (simp add: distance_loop c)
  have e: "SerialPrintfDistance 17 \<in> set (cycle_events 1000 s)"
    by (simp add: cycle_events_eq c)
  from v r c l e raw_distance_error [of echo] raw_distance_alt [of echo] raw_distance_def [of echo]
  show ?thesis by blast
qed

end
